theory Spec2Isabelle
  imports Complex_Main "HOL-Library.Signed_Division" "HOL-Library.Multiset"
begin

section \<open>The game model (model.h, model.cpp)\<close>

text \<open>
  Modelled from the spec: the header model.h is not among the sources. It declares the
  enumerations \<open>Piece\<close> and \<open>Player\<close>, the constant \<open>BOARD_SIZE\<close>, the structures
  \<open>Square\<close> and \<open>GameModel\<close>, the vector type \<open>Moves\<close> and the sentinel
  \<open>GAME_INVALID_SQUARE\<close>. The data model of the spec gives them: a cell is empty, black
  or white, a player is black or white, the board is 8 by 8, a move is a pair of
  coordinates, and a state holds the board, the player to move, the terminal flag, the
  time each player has used and the time the turn started.
\<close>

datatype Piece = PIECE_EMPTY | PIECE_BLACK | PIECE_WHITE

datatype Player = PLAYER_BLACK | PLAYER_WHITE

definition BOARD_SIZE :: int where
  "BOARD_SIZE = 8"

text \<open>\<^verbatim>\<open>struct Square { int x; int y; }\<close>: \<open>sx\<close> is the column, \<open>sy\<close> the row.\<close>

record Square =
  sx :: int
  sy :: int

text \<open>
  The board is the fixed array \<^verbatim>\<open>Piece board[BOARD_SIZE][BOARD_SIZE]\<close>, read as
  \<^verbatim>\<open>board[y][x]\<close>: a table from a row and a column to a piece. Every read of the
  source happens at indices the loops or \<open>isSquareValid\<close> keep inside the array; the
  table's entries outside the 8 by 8 range stand for no memory of the program. The
  times are the source's \<^verbatim>\<open>double\<close>s, idealised as reals; \<open>playerTime\<close> is the
  array indexed by the player.
\<close>

record GameModel =
  gameOver :: bool
  currentPlayer :: Player
  playerTime :: "Player \<Rightarrow> real"
  turnTimer :: real
  board :: "int \<Rightarrow> int \<Rightarrow> Piece"

text \<open>
  Modelled from the spec: \<open>GAME_INVALID_SQUARE\<close>, the invalid-move sentinel of model.h,
  a square that is not on the board.
\<close>

definition GAME_INVALID_SQUARE :: Square where
  "GAME_INVALID_SQUARE = \<lparr>sx = - 1, sy = - 1\<rparr>"

text \<open>The squares in the order of the loops \<^verbatim>\<open>for y ... for x ...\<close>: row-major.\<close>

definition allSquares :: "Square list" where
  "allSquares = concat (map (\<lambda>y. map (\<lambda>x. \<lparr>sx = x, sy = y\<rparr>) [0..BOARD_SIZE - 1]) [0..BOARD_SIZE - 1])"

definition otherPlayer :: "Player \<Rightarrow> Player" where
  "otherPlayer p = (if p = PLAYER_WHITE then PLAYER_BLACK else PLAYER_WHITE)"

definition pieceOf :: "Player \<Rightarrow> Piece" where
  "pieceOf p = (if p = PLAYER_WHITE then PIECE_WHITE else PIECE_BLACK)"

definition opponentPieceOf :: "Player \<Rightarrow> Piece" where
  "opponentPieceOf p = (if p = PLAYER_WHITE then PIECE_BLACK else PIECE_WHITE)"

definition emptyBoard :: "int \<Rightarrow> int \<Rightarrow> Piece" where
  "emptyBoard = (\<lambda>y x. PIECE_EMPTY)"

definition initModel :: "GameModel \<Rightarrow> GameModel" where
  "initModel model =
     model\<lparr>gameOver := True, playerTime := (\<lambda>p. 0), board := emptyBoard\<rparr>"

text \<open>\<open>startModel\<close>; \<open>now\<close> is what \<^verbatim>\<open>GetTime()\<close> returns.\<close>

definition startModel :: "GameModel \<Rightarrow> real \<Rightarrow> GameModel" where
  "startModel model now =
     model\<lparr>gameOver := False, currentPlayer := PLAYER_BLACK, playerTime := (\<lambda>p. 0),
       turnTimer := now,
       board := emptyBoard
         (BOARD_SIZE div 2 - 1 := (emptyBoard (BOARD_SIZE div 2 - 1))
            (BOARD_SIZE div 2 - 1 := PIECE_WHITE, BOARD_SIZE div 2 := PIECE_BLACK),
          BOARD_SIZE div 2 := (emptyBoard (BOARD_SIZE div 2))
            (BOARD_SIZE div 2 := PIECE_WHITE, BOARD_SIZE div 2 - 1 := PIECE_BLACK))\<rparr>"

definition getCurrentPlayer :: "GameModel \<Rightarrow> Player" where
  "getCurrentPlayer model = currentPlayer model"

text \<open>
  \<open>getBoardPiece\<close> and \<open>setBoardPiece\<close> index the array with no test of bounds. The table of
  the model is total, so a square outside the board has a cell of its own here, where the
  source reads or writes outside \<open>board[8][8]\<close>. The model follows the source on the 64
  squares of the board, and what is stated about a write is stated for those.
\<close>

definition getBoardPiece :: "GameModel \<Rightarrow> Square \<Rightarrow> Piece" where
  "getBoardPiece model square = board model (sy square) (sx square)"

definition setBoardPiece :: "GameModel \<Rightarrow> Square \<Rightarrow> Piece \<Rightarrow> GameModel" where
  "setBoardPiece model square piece =
     model\<lparr>board := (board model)(sy square := (board model (sy square))(sx square := piece))\<rparr>"

definition isSquareValid :: "Square \<Rightarrow> bool" where
  "isSquareValid square \<longleftrightarrow>
     sx square \<ge> 0 \<and> sx square < BOARD_SIZE \<and> sy square \<ge> 0 \<and> sy square < BOARD_SIZE"

text \<open>\<open>getScore\<close>: the number of the player's pieces.\<close>

definition getScore :: "GameModel \<Rightarrow> Player \<Rightarrow> int" where
  "getScore model player =
     int (length (filter (\<lambda>sq.
       (board model (sy sq) (sx sq) = PIECE_WHITE \<and> player = PLAYER_WHITE) \<or>
       (board model (sy sq) (sx sq) = PIECE_BLACK \<and> player = PLAYER_BLACK)) allSquares))"

text \<open>
  The step of a walk along a direction. Both direction tables of the source hold the
  eight vectors with a component that is not zero.
\<close>

definition advance :: "Square \<Rightarrow> int \<Rightarrow> int \<Rightarrow> Square" where
  "advance current dx dy = \<lparr>sx = sx current + dx, sy = sy current + dy\<rparr>"

definition walkMeasure :: "int \<Rightarrow> int \<Rightarrow> Square \<Rightarrow> nat" where
  "walkMeasure dx dy current =
     (if dx > 0 then nat (BOARD_SIZE - sx current)
      else if dx < 0 then nat (sx current + 1)
      else if dy > 0 then nat (BOARD_SIZE - sy current)
      else nat (sy current + 1))"

lemma walkMeasure_advance:
  "isSquareValid current \<Longrightarrow> dx \<noteq> 0 \<or> dy \<noteq> 0 \<Longrightarrow>
   walkMeasure dx dy (advance current dx dy) < walkMeasure dx dy current"
  by (auto simp: walkMeasure_def advance_def isSquareValid_def BOARD_SIZE_def)

text \<open>
  The \<^verbatim>\<open>while (isSquareValid(current))\<close> loop of \<open>getValidMoves\<close> for one direction;
  the result is whether the loop sets \<open>isValid\<close>. The pieces of the two sides are the
  locals \<open>currentPiece\<close> and \<open>opponentPiece\<close> of the function. A piece that is neither
  empty nor the opponent's is the mover's, the third test of the source. The conjunct
  on \<open>dx\<close> and \<open>dy\<close> holds at every call (the table has no zero vector); it makes the
  recursion total.
\<close>

function getValidMoves_walk :: "GameModel \<Rightarrow> int \<Rightarrow> int \<Rightarrow> Square \<Rightarrow> bool \<Rightarrow> bool" where
  "getValidMoves_walk model dx dy current foundOpponent =
     (if isSquareValid current \<and> (dx \<noteq> 0 \<or> dy \<noteq> 0) then
        (let piece = getBoardPiece model current in
         if piece = PIECE_EMPTY then False
         else if piece = opponentPieceOf (currentPlayer model)
           then getValidMoves_walk model dx dy (advance current dx dy) True
         else foundOpponent)
      else False)"
  by pat_completeness auto
termination
  by (relation "measure (\<lambda>(model, dx, dy, current, foundOpponent). walkMeasure dx dy current)")
    (auto simp: walkMeasure_advance)

declare getValidMoves_walk.simps [simp del]

definition directions_getValidMoves :: "(int \<times> int) list" where
  "directions_getValidMoves =
     [(- 1, - 1), (- 1, 0), (- 1, 1), (0, - 1), (0, 1), (1, - 1), (1, 0), (1, 1)]"

text \<open>
  \<open>getValidMoves\<close>: the vector \<open>validMoves\<close> the call appends to, starting empty as at
  every call of the source.
\<close>

definition isValidMove :: "GameModel \<Rightarrow> Square \<Rightarrow> bool" where
  "isValidMove model move =
     foldl (\<lambda>isValid (dx, dy).
         isValid \<or> getValidMoves_walk model dx dy (advance move dx dy) False)
       False directions_getValidMoves"

definition getValidMoves :: "GameModel \<Rightarrow> Square list" where
  "getValidMoves model =
     filter (\<lambda>move. getBoardPiece model move = PIECE_EMPTY \<and> isValidMove model move) allSquares"

text \<open>
  The inner \<^verbatim>\<open>while\<close> loop of \<open>playMove\<close> for one direction: it collects the enemy
  pieces in \<open>toFlip\<close> and turns them over when it reaches a piece of the mover.
\<close>

function playMove_walk ::
  "GameModel \<Rightarrow> Piece \<Rightarrow> Piece \<Rightarrow> int \<Rightarrow> int \<Rightarrow> Square \<Rightarrow> Square list \<Rightarrow> GameModel" where
  "playMove_walk model piece enemyPiece dx dy current toFlip =
     (if isSquareValid current \<and> (dx \<noteq> 0 \<or> dy \<noteq> 0) then
        (let currentPiece = getBoardPiece model current in
         if currentPiece = PIECE_EMPTY then model
         else
           (let toFlip' = (if currentPiece = enemyPiece then toFlip @ [current] else toFlip) in
            if currentPiece = piece then
              (if length toFlip' > 0
               then foldl (\<lambda>m sq. setBoardPiece m sq piece) model toFlip'
               else model)
            else playMove_walk model piece enemyPiece dx dy (advance current dx dy) toFlip'))
      else model)"
  by pat_completeness auto
termination
  by (relation "measure (\<lambda>(model, piece, enemyPiece, dx, dy, current, toFlip). walkMeasure dx dy current)")
    (auto simp: walkMeasure_advance)

declare playMove_walk.simps [simp del]

definition directions_playMove :: "(int \<times> int) list" where
  "directions_playMove =
     [(- 1, - 1), (0, - 1), (1, - 1), (- 1, 0), (1, 0), (- 1, 1), (0, 1), (1, 1)]"

text \<open>The part of \<open>playMove\<close> that writes the board: the placement and the flips.\<close>

definition playMove_board :: "GameModel \<Rightarrow> Square \<Rightarrow> GameModel" where
  "playMove_board model move =
     (let piece = (if getCurrentPlayer model = PLAYER_WHITE then PIECE_WHITE else PIECE_BLACK);
          model1 = setBoardPiece model move piece;
          enemyPiece = (if piece = PIECE_WHITE then PIECE_BLACK else PIECE_WHITE)
      in foldl (\<lambda>m (dx, dy). playMove_walk m piece enemyPiece dx dy (advance move dx dy) [])
           model1 directions_playMove)"

text \<open>The timer update and the swap of the player.\<close>

definition playMove_timer :: "GameModel \<Rightarrow> real \<Rightarrow> GameModel" where
  "playMove_timer model currentTime =
     model\<lparr>playerTime := (playerTime model)
              (currentPlayer model := playerTime model (currentPlayer model) + (currentTime - turnTimer model)),
           turnTimer := currentTime\<rparr>"

definition swapPlayer :: "GameModel \<Rightarrow> GameModel" where
  "swapPlayer model =
     model\<lparr>currentPlayer := (if currentPlayer model = PLAYER_WHITE then PLAYER_BLACK else PLAYER_WHITE)\<rparr>"

text \<open>The end of \<open>playMove\<close>: the pass back and the game-over test.\<close>

definition playMove_gameOver :: "GameModel \<Rightarrow> GameModel" where
  "playMove_gameOver model =
     (if length (getValidMoves model) = 0 then
        (let model' = swapPlayer model in
         if length (getValidMoves model') = 0 then model'\<lparr>gameOver := True\<rparr> else model')
      else model)"

text \<open>
  \<open>playMove\<close>: the value the source returns and the model it leaves; \<open>currentTime\<close> is
  what \<^verbatim>\<open>GetTime()\<close> returns.
\<close>

definition playMove :: "GameModel \<Rightarrow> Square \<Rightarrow> real \<Rightarrow> bool \<times> GameModel" where
  "playMove model move currentTime =
     (True, playMove_gameOver (swapPlayer (playMove_timer (playMove_board model move) currentTime)))"

section \<open>The engine (ai.cpp, the variant with move ordering and adaptive depth)\<close>

definition EARLY_GAME_DEPTH :: int where
  "EARLY_GAME_DEPTH = 7"

definition MID_GAME_DEPTH :: int where
  "MID_GAME_DEPTH = 8"

definition END_GAME_DEPTH :: int where
  "END_GAME_DEPTH = 12"

definition MAX_NODES :: int where
  "MAX_NODES = 500000"

text \<open>\<^verbatim>\<open>INT_MIN\<close> and \<open>INT_MAX\<close> of a 32-bit \<^verbatim>\<open>int\<close>.\<close>

definition INT_MIN :: int where
  "INT_MIN = - 2147483648"

definition INT_MAX :: int where
  "INT_MAX = 2147483647"

definition POSITION_WEIGHTS :: "int list list" where
  "POSITION_WEIGHTS =
     [[100, - 20, 10, 5, 5, 10, - 20, 100],
      [- 20, - 50, - 2, - 2, - 2, - 2, - 50, - 20],
      [10, - 2, 5, 1, 1, 5, - 2, 10],
      [5, - 2, 1, 0, 0, 1, - 2, 5],
      [5, - 2, 1, 0, 0, 1, - 2, 5],
      [10, - 2, 5, 1, 1, 5, - 2, 10],
      [- 20, - 50, - 2, - 2, - 2, - 2, - 50, - 20],
      [100, - 20, 10, 5, 5, 10, - 20, 100]]"

text \<open>
  What the source leaves to its environment. \<open>std::sort\<close> promises a sequence ordered by
  \<open>operator<\<close> and leaves the order of equivalent elements open: \<open>tieFirst a b\<close> says
  whether the implementation puts \<open>a\<close> before an equivalent \<open>b\<close> that stood behind it.
  \<open>clock\<close> is what \<^verbatim>\<open>GetTime()\<close> returns inside a simulated move, and \<open>uninitialized\<close> is
  the content of a local \<^verbatim>\<open>GameModel\<close> before anything is assigned to it. The clock and
  the uninitialised content reach only the time fields of simulated copies.
\<close>

record ScoredMove =
  move :: Square
  score :: int

record Env =
  tieFirst :: "ScoredMove \<Rightarrow> ScoredMove \<Rightarrow> bool"
  clock :: real
  uninitialized :: GameModel

text \<open>\<open>totalPieces\<close>, the count both \<open>getSearchDepth\<close> and \<open>evaluate\<close> start with.\<close>

definition totalPieces :: "GameModel \<Rightarrow> int" where
  "totalPieces model =
     int (length (filter (\<lambda>sq. board model (sy sq) (sx sq) \<noteq> PIECE_EMPTY) allSquares))"

definition getSearchDepth :: "GameModel \<Rightarrow> int" where
  "getSearchDepth model =
     (if totalPieces model \<le> 20 then EARLY_GAME_DEPTH
      else if totalPieces model \<ge> 45 then END_GAME_DEPTH
      else MID_GAME_DEPTH)"

definition positionalValue :: "GameModel \<Rightarrow> Player \<Rightarrow> int" where
  "positionalValue model player =
     (\<Sum>sq\<leftarrow>allSquares.
        if board model (sy sq) (sx sq) = pieceOf player
          then POSITION_WEIGHTS ! nat (sy sq) ! nat (sx sq)
        else if board model (sy sq) (sx sq) = opponentPieceOf player
          then - (POSITION_WEIGHTS ! nat (sy sq) ! nat (sx sq))
        else 0)"

text \<open>The mobility term from the number of pieces and the two numbers of legal moves.\<close>

definition mobilityOf :: "int \<Rightarrow> nat \<Rightarrow> nat \<Rightarrow> int" where
  "mobilityOf pieces playerMoves opponentMoves =
     (if pieces < 50 then
        (let mobility = (int playerMoves - int opponentMoves) * 3;
             mobility' = (if opponentMoves = 0 \<and> playerMoves > 0 then mobility + 50 else mobility)
         in if playerMoves > opponentMoves * 2 then mobility' + 20 else mobility')
      else 0)"

definition mobilityValue :: "Env \<Rightarrow> GameModel \<Rightarrow> Player \<Rightarrow> int" where
  "mobilityValue env model player =
     (let tempModel = (uninitialized env)\<lparr>board := board model, gameOver := False\<rparr>;
          playerMoves = getValidMoves (tempModel\<lparr>currentPlayer := player\<rparr>);
          opponentMoves = getValidMoves (tempModel\<lparr>currentPlayer := otherPlayer player\<rparr>)
      in mobilityOf (totalPieces model) (length playerMoves) (length opponentMoves))"

definition stabilityValue :: "GameModel \<Rightarrow> Player \<Rightarrow> int" where
  "stabilityValue model player =
     (\<Sum>sq\<leftarrow>allSquares.
        if sx sq = 0 \<or> sx sq = BOARD_SIZE - 1 \<or> sy sq = 0 \<or> sy sq = BOARD_SIZE - 1 then
          (if board model (sy sq) (sx sq) = pieceOf player then 5
           else if board model (sy sq) (sx sq) = opponentPieceOf player then - 5
           else 0)
        else 0)"

text \<open>The remainder and the quotient are those of C++, which truncate towards zero.\<close>

definition parityValue :: "GameModel \<Rightarrow> Player \<Rightarrow> int" where
  "parityValue model player =
     (if totalPieces model \<ge> 50 then
        (let emptySquares = 64 - totalPieces model in
         if emptySquares smod 2 = 1 then (if currentPlayer model = player then 10 else - 10)
         else 0)
      else 0)"

definition pieceValue :: "GameModel \<Rightarrow> Player \<Rightarrow> int" where
  "pieceValue model player =
     (let scoreDiff = getScore model player - getScore model (otherPlayer player) in
      if totalPieces model \<ge> 50 then scoreDiff * 5
      else if totalPieces model \<ge> 40 then scoreDiff * 2
      else scoreDiff sdiv 2)"

definition evaluate :: "Env \<Rightarrow> GameModel \<Rightarrow> Player \<Rightarrow> int" where
  "evaluate env model player =
     positionalValue model player + mobilityValue env model player + stabilityValue model player
       + parityValue model player + pieceValue model player"

text \<open>\<open>copyBoard\<close> writes the 64 cells, the player and the flag of \<open>dest\<close>.\<close>

definition copyBoard :: "GameModel \<Rightarrow> GameModel \<Rightarrow> GameModel" where
  "copyBoard source dest =
     dest\<lparr>board := board source, currentPlayer := currentPlayer source, gameOver := gameOver source\<rparr>"

text \<open>\<open>simulateMove\<close>: the model it leaves in \<open>newModel\<close>.\<close>

definition simulateMove :: "Env \<Rightarrow> GameModel \<Rightarrow> Square \<Rightarrow> GameModel \<Rightarrow> GameModel" where
  "simulateMove env model mv newModel = snd (playMove (copyBoard model newModel) mv (clock env))"

text \<open>\<open>operator<\<close> of \<open>ScoredMove\<close>: the higher score comes first.\<close>

definition ScoredMove_less :: "ScoredMove \<Rightarrow> ScoredMove \<Rightarrow> bool" where
  "ScoredMove_less a other \<longleftrightarrow> score a > score other"

text \<open>
  Modelled from the C++ standard: \<open>std::sort\<close> is library code. It returns a permutation
  of its input in which no element is less than one before it. This model inserts the
  elements from the last to the first and asks \<open>tieFirst\<close> where an element goes among
  its equivalents, so that every choice of \<open>tieFirst\<close> gives a result the standard allows.
\<close>

fun sort_insert :: "(ScoredMove \<Rightarrow> ScoredMove \<Rightarrow> bool) \<Rightarrow> ScoredMove \<Rightarrow> ScoredMove list \<Rightarrow> ScoredMove list" where
  "sort_insert tie a [] = [a]"
| "sort_insert tie a (b # bs) =
     (if ScoredMove_less a b then a # b # bs
      else if ScoredMove_less b a then b # sort_insert tie a bs
      else if tie a b then a # b # bs
      else b # sort_insert tie a bs)"

definition std_sort :: "(ScoredMove \<Rightarrow> ScoredMove \<Rightarrow> bool) \<Rightarrow> ScoredMove list \<Rightarrow> ScoredMove list" where
  "std_sort tie xs = foldr (sort_insert tie) xs []"

text \<open>\<open>orderMoves\<close>: the vector it leaves in \<open>moves\<close>.\<close>

definition scoreMove :: "Env \<Rightarrow> GameModel \<Rightarrow> Player \<Rightarrow> bool \<Rightarrow> Square \<Rightarrow> ScoredMove" where
  "scoreMove env model aiPlayer maximizing mv =
     (let newModel = simulateMove env model mv (uninitialized env);
          s = evaluate env newModel aiPlayer
      in \<lparr>move = mv, score = (if \<not> maximizing then - s else s)\<rparr>)"

definition orderMoves :: "Env \<Rightarrow> GameModel \<Rightarrow> Square list \<Rightarrow> Player \<Rightarrow> bool \<Rightarrow> Square list" where
  "orderMoves env model moves aiPlayer maximizing =
     map move (std_sort (tieFirst env) (map (scoreMove env model aiPlayer maximizing) moves))"

text \<open>
  The two \<^verbatim>\<open>for (auto move : validMoves)\<close> loops of \<open>alphabeta\<close>. \<open>child\<close> is the
  recursive call on the simulated move, with the window and the node counter of the moment;
  the loops return the extremal value and the counter.
\<close>

fun alphabeta_maxLoop ::
  "(Square \<Rightarrow> int \<Rightarrow> int \<Rightarrow> int \<Rightarrow> int \<times> int) \<Rightarrow> Square list \<Rightarrow> int \<Rightarrow> int \<Rightarrow> int \<Rightarrow> int \<Rightarrow> int \<times> int" where
  "alphabeta_maxLoop child [] alpha beta maxEval nodes = (maxEval, nodes)"
| "alphabeta_maxLoop child (mv # rest) alpha beta maxEval nodes =
     (case child mv alpha beta nodes of (eval, nodes') \<Rightarrow>
        (let maxEval' = (if eval > maxEval then eval else maxEval);
             alpha' = (if eval > alpha then eval else alpha)
         in if beta \<le> alpha' then (maxEval', nodes')
            else alphabeta_maxLoop child rest alpha' beta maxEval' nodes'))"

fun alphabeta_minLoop ::
  "(Square \<Rightarrow> int \<Rightarrow> int \<Rightarrow> int \<Rightarrow> int \<times> int) \<Rightarrow> Square list \<Rightarrow> int \<Rightarrow> int \<Rightarrow> int \<Rightarrow> int \<Rightarrow> int \<times> int" where
  "alphabeta_minLoop child [] alpha beta minEval nodes = (minEval, nodes)"
| "alphabeta_minLoop child (mv # rest) alpha beta minEval nodes =
     (case child mv alpha beta nodes of (eval, nodes') \<Rightarrow>
        (let minEval' = (if eval < minEval then eval else minEval);
             beta' = (if eval < beta then eval else beta)
         in if beta' \<le> alpha then (minEval', nodes')
            else alphabeta_minLoop child rest alpha beta' minEval' nodes'))"

lemma alphabeta_maxLoop_cong [fundef_cong]:
  assumes "moves = moves'" "alpha = alpha'" "beta = beta'" "maxEval = maxEval'" "nodes = nodes'"
    and "\<And>mv a b n. mv \<in> set moves' \<Longrightarrow> child mv a b n = child' mv a b n"
  shows "alphabeta_maxLoop child moves alpha beta maxEval nodes
       = alphabeta_maxLoop child' moves' alpha' beta' maxEval' nodes'"
  using assms
  by (induction moves' arbitrary: moves alpha alpha' maxEval maxEval' nodes nodes')
    (auto split: prod.splits simp: Let_def)

lemma alphabeta_minLoop_cong [fundef_cong]:
  assumes "moves = moves'" "alpha = alpha'" "beta = beta'" "minEval = minEval'" "nodes = nodes'"
    and "\<And>mv a b n. mv \<in> set moves' \<Longrightarrow> child mv a b n = child' mv a b n"
  shows "alphabeta_minLoop child moves alpha beta minEval nodes
       = alphabeta_minLoop child' moves' alpha' beta' minEval' nodes'"
  using assms
  by (induction moves' arbitrary: moves beta beta' minEval minEval' nodes nodes')
    (auto split: prod.splits simp: Let_def)

subsection \<open>Facts about the board and a move's writes\<close>

text \<open>The number of empty squares, the measure of the game's progress.\<close>

definition emptySquares :: "GameModel \<Rightarrow> nat" where
  "emptySquares model = length (filter (\<lambda>sq. getBoardPiece model sq = PIECE_EMPTY) allSquares)"

lemma set_allSquares: "set allSquares = {sq. isSquareValid sq}"
proof (rule set_eqI)
  fix sq :: Square
  have eq: "sq = \<lparr>sx = sx sq, sy = sy sq\<rparr>" by simp
  show "sq \<in> set allSquares \<longleftrightarrow> sq \<in> {sq. isSquareValid sq}"
  proof
    assume "sq \<in> set allSquares"
    then show "sq \<in> {sq. isSquareValid sq}"
      by (auto simp: allSquares_def isSquareValid_def BOARD_SIZE_def)
  next
    assume "sq \<in> {sq. isSquareValid sq}"
    then have "sx sq \<in> {0..7}" "sy sq \<in> {0..7}"
      by (auto simp: isSquareValid_def BOARD_SIZE_def)
    then have "\<lparr>sx = sx sq, sy = sy sq\<rparr> \<in> set allSquares"
      unfolding allSquares_def BOARD_SIZE_def by (simp add: image_iff) 
    then show "sq \<in> set allSquares" using eq by simp
  qed
qed

lemma distinct_allSquares: "distinct allSquares"
  unfolding allSquares_def BOARD_SIZE_def
  by (rule distinct_concat) (auto simp: distinct_map inj_on_def)

lemma length_allSquares: "length allSquares = 64"
  unfolding allSquares_def BOARD_SIZE_def by (simp add: length_concat comp_def sum_list_triv)

text \<open>What a move writes: every cell keeps its piece or takes the mover's, and the other fields stay.\<close>

definition writesOnly :: "Piece \<Rightarrow> GameModel \<Rightarrow> GameModel \<Rightarrow> bool" where
  "writesOnly piece model model' \<longleftrightarrow>
     (\<forall>y x. board model' y x = board model y x \<or> board model' y x = piece) \<and>
     currentPlayer model' = currentPlayer model \<and> gameOver model' = gameOver model \<and>
     playerTime model' = playerTime model \<and> turnTimer model' = turnTimer model"

lemma writesOnly_refl: "writesOnly piece model model"
  by (simp add: writesOnly_def)

lemma writesOnly_trans:
  "writesOnly piece m1 m2 \<Longrightarrow> writesOnly piece m2 m3 \<Longrightarrow> writesOnly piece m1 m3"
  unfolding writesOnly_def by metis

lemma writesOnly_setBoardPiece: "writesOnly piece model (setBoardPiece model sq piece)"
  by (simp add: writesOnly_def setBoardPiece_def)

lemma writesOnly_flips:
  "writesOnly piece model (foldl (\<lambda>m sq. setBoardPiece m sq piece) model sqs)"
proof (induction sqs arbitrary: model)
  case Nil
  then show ?case by (simp add: writesOnly_refl)
next
  case (Cons sq sqs)
  show ?case
    using writesOnly_trans [OF writesOnly_setBoardPiece Cons.IH] by simp
qed

lemma writesOnly_playMove_walk:
  "writesOnly piece model (playMove_walk model piece enemyPiece dx dy current toFlip)"
proof (induction model piece enemyPiece dx dy current toFlip rule: playMove_walk.induct)
  case (1 model piece enemyPiece dx dy current toFlip)
  show ?case
    apply (subst playMove_walk.simps)
    using 1 by (auto simp: Let_def writesOnly_refl writesOnly_flips simp del: foldl_append)
qed

lemma writesOnly_directions:
  "writesOnly piece model
     (foldl (\<lambda>m (dx, dy). playMove_walk m piece enemyPiece dx dy (start dx dy) []) model dirs)"
proof (induction dirs arbitrary: model)
  case Nil
  then show ?case by (simp add: writesOnly_refl)
next
  case (Cons d dirs)
  obtain dx dy where d: "d = (dx, dy)" by (cases d)
  show ?case
    using writesOnly_trans [OF writesOnly_playMove_walk Cons.IH] by (simp add: d)
qed

lemma playMove_board_eq:
  "playMove_board model mv =
     foldl (\<lambda>m (dx, dy). playMove_walk m (pieceOf (currentPlayer model))
                (opponentPieceOf (currentPlayer model)) dx dy (advance mv dx dy) [])
       (setBoardPiece model mv (pieceOf (currentPlayer model))) directions_playMove"
  by (simp add: playMove_board_def getCurrentPlayer_def pieceOf_def opponentPieceOf_def)

lemma writesOnly_playMove_board_placed:
  "writesOnly (pieceOf (currentPlayer model))
     (setBoardPiece model mv (pieceOf (currentPlayer model))) (playMove_board model mv)"
  unfolding playMove_board_eq
  by (rule writesOnly_directions [where start = "\<lambda>dx dy. advance mv dx dy"])

lemma writesOnly_playMove_board:
  "writesOnly (pieceOf (currentPlayer model)) model (playMove_board model mv)"
  by (rule writesOnly_trans [OF writesOnly_setBoardPiece writesOnly_playMove_board_placed])

lemma writesOnly_keeps:
  "writesOnly piece model model' \<Longrightarrow> board model y x = piece \<Longrightarrow> board model' y x = piece"
  unfolding writesOnly_def by metis

lemma playMove_board_placed:
  "board (playMove_board model mv) (sy mv) (sx mv) = pieceOf (currentPlayer model)"
  by (rule writesOnly_keeps [OF writesOnly_playMove_board_placed]) (simp add: setBoardPiece_def)

lemma filter_length_le:
  "(\<And>x. x \<in> set xs \<Longrightarrow> Q x \<Longrightarrow> P x) \<Longrightarrow> length (filter Q xs) \<le> length (filter P xs)"
proof (induction xs)
  case Nil
  then show ?case by simp
next
  case (Cons x xs)
  then have "length (filter Q xs) \<le> length (filter P xs)" by simp
  then show ?case using Cons.prems [of x] by auto
qed

lemma filter_length_less:
  assumes "\<And>x. x \<in> set xs \<Longrightarrow> Q x \<Longrightarrow> P x" and "a \<in> set xs" and "P a" and "\<not> Q a"
  shows "length (filter Q xs) < length (filter P xs)"
  using assms
proof (induction xs)
  case Nil
  then show ?case by simp
next
  case (Cons x xs)
  have le: "length (filter Q xs) \<le> length (filter P xs)"
    using Cons.prems(1) by (intro filter_length_le) simp
  show ?case
  proof (cases "a = x")
    case True
    then show ?thesis using Cons.prems le by auto
  next
    case False
    then have "length (filter Q xs) < length (filter P xs)"
      using Cons by auto
    then show ?thesis using Cons.prems(1) [of x] by auto
  qed
qed

lemma pieceOf_not_empty: "pieceOf p \<noteq> PIECE_EMPTY"
  by (simp add: pieceOf_def)

lemma emptySquares_playMove_board:
  assumes "isSquareValid mv" and "getBoardPiece model mv = PIECE_EMPTY"
  shows "emptySquares (playMove_board model mv) < emptySquares model"
  unfolding emptySquares_def
proof (rule filter_length_less [where a = mv])
  fix sq
  assume "getBoardPiece (playMove_board model mv) sq = PIECE_EMPTY"
  then show "getBoardPiece model sq = PIECE_EMPTY"
    using writesOnly_playMove_board [of model mv] pieceOf_not_empty [of "currentPlayer model"]
    unfolding writesOnly_def getBoardPiece_def by metis
next
  show "mv \<in> set allSquares" using assms(1) by (simp add: set_allSquares)
next
  show "getBoardPiece model mv = PIECE_EMPTY" by (rule assms(2))
next
  show "getBoardPiece (playMove_board model mv) mv \<noteq> PIECE_EMPTY"
    by (simp add: getBoardPiece_def playMove_board_placed pieceOf_not_empty)
qed

subsection \<open>What the move generator reads, and the squares a simulated move fills\<close>

lemma getValidMoves_walk_cong:
  "board model = board model' \<Longrightarrow> currentPlayer model = currentPlayer model' \<Longrightarrow>
   getValidMoves_walk model dx dy current found = getValidMoves_walk model' dx dy current found"
proof (induction model dx dy current found rule: getValidMoves_walk.induct)
  case (1 model dx dy current foundOpponent)
  show ?case
    apply (subst getValidMoves_walk.simps)
    apply (subst (2) getValidMoves_walk.simps)
    using 1 by (auto simp: Let_def getBoardPiece_def)
qed

lemma isValidMove_cong:
  assumes "board model = board model'" and "currentPlayer model = currentPlayer model'"
  shows "isValidMove model mv = isValidMove model' mv"
proof -
  have "\<And>dx dy c f. getValidMoves_walk model dx dy c f = getValidMoves_walk model' dx dy c f"
    by (rule getValidMoves_walk_cong) fact+
  then show ?thesis unfolding isValidMove_def by simp
qed

lemma getValidMoves_cong:
  assumes "board model = board model'" and "currentPlayer model = currentPlayer model'"
  shows "getValidMoves model = getValidMoves model'"
proof -
  have "\<And>mv. isValidMove model mv = isValidMove model' mv"
    by (rule isValidMove_cong) fact+
  then show ?thesis unfolding getValidMoves_def getBoardPiece_def by (simp add: assms(1))
qed

lemma getValidMoves_member:
  "mv \<in> set (getValidMoves model) \<longleftrightarrow>
   isSquareValid mv \<and> getBoardPiece model mv = PIECE_EMPTY \<and> isValidMove model mv"
  by (auto simp: getValidMoves_def set_allSquares)

lemma emptySquares_cong:
  "board model = board model' \<Longrightarrow> emptySquares model = emptySquares model'"
  by (simp add: emptySquares_def getBoardPiece_def)

lemma board_playMove_gameOver [simp]: "board (playMove_gameOver model) = board model"
  by (simp add: playMove_gameOver_def swapPlayer_def Let_def)

lemma board_swapPlayer [simp]: "board (swapPlayer model) = board model"
  by (simp add: swapPlayer_def)

lemma board_playMove_timer [simp]: "board (playMove_timer model t) = board model"
  by (simp add: playMove_timer_def)

lemma board_playMove: "board (snd (playMove model mv t)) = board (playMove_board model mv)"
  by (simp add: playMove_def)

lemma emptySquares_simulateMove:
  assumes "mv \<in> set (getValidMoves model)"
  shows "emptySquares (simulateMove env model mv newModel) < emptySquares model"
proof -
  let ?copy = "copyBoard model newModel"
  have valid: "isSquareValid mv" and empty: "getBoardPiece ?copy mv = PIECE_EMPTY"
    using assms by (simp_all add: getValidMoves_member getBoardPiece_def copyBoard_def)
  have "emptySquares (simulateMove env model mv newModel) = emptySquares (playMove_board ?copy mv)"
    unfolding simulateMove_def by (rule emptySquares_cong) (rule board_playMove)
  also have "\<dots> < emptySquares ?copy"
    by (rule emptySquares_playMove_board [OF valid empty])
  also have "\<dots> = emptySquares model"
    by (rule emptySquares_cong) (simp add: copyBoard_def)
  finally show ?thesis .
qed

subsection \<open>The sort and the move orderer keep the moves\<close>

lemma mset_sort_insert: "mset (sort_insert tie a xs) = add_mset a (mset xs)"
  by (induction xs) auto

lemma mset_std_sort: "mset (std_sort tie xs) = mset xs"
  unfolding std_sort_def by (induction xs) (auto simp: mset_sort_insert)

lemma set_sort_insert: "set (sort_insert tie a xs) = insert a (set xs)"
  using mset_sort_insert [of tie a xs, THEN arg_cong, of set_mset] by simp

lemma sorted_sort_insert:
  "sorted_wrt (\<lambda>a b. \<not> ScoredMove_less b a) xs \<Longrightarrow>
   sorted_wrt (\<lambda>a b. \<not> ScoredMove_less b a) (sort_insert tie a xs)"
  by (induction xs) (auto simp: set_sort_insert ScoredMove_less_def)

lemma sorted_std_sort: "sorted_wrt (\<lambda>a b. \<not> ScoredMove_less b a) (std_sort tie xs)"
  unfolding std_sort_def by (induction xs) (auto simp: sorted_sort_insert)

lemma move_scoreMove [simp]: "move (scoreMove env model aiPlayer maximizing mv) = mv"
  by (simp add: scoreMove_def Let_def)

lemma mset_orderMoves: "mset (orderMoves env model moves aiPlayer maximizing) = mset moves"
proof -
  let ?scored = "map (scoreMove env model aiPlayer maximizing) moves"
  have "mset (orderMoves env model moves aiPlayer maximizing)
      = image_mset move (mset (std_sort (tieFirst env) ?scored))"
    unfolding orderMoves_def by simp
  also have "\<dots> = image_mset move (mset ?scored)"
    by (simp only: mset_std_sort)
  also have "\<dots> = mset (map move ?scored)"
    by (simp add: multiset.map_comp)
  also have "map move ?scored = moves"
    by (simp add: comp_def)
  finally show ?thesis .
qed

lemma set_orderMoves: "set (orderMoves env model moves aiPlayer maximizing) = set moves"
  using mset_orderMoves [of env model moves aiPlayer maximizing, THEN arg_cong, of set_mset] by simp

subsection \<open>The search\<close>

text \<open>
  \<open>alphabeta\<close>: the value it returns and the node counter \<open>nodesExplored\<close> it leaves,
  from the counter it finds. The recursion ends because every simulated move fills a
  square and a pass is followed by a move.
\<close>

function alphabeta ::
  "Env \<Rightarrow> GameModel \<Rightarrow> int \<Rightarrow> int \<Rightarrow> int \<Rightarrow> bool \<Rightarrow> Player \<Rightarrow> int \<Rightarrow> int \<times> int" where
  "alphabeta env model depth alpha beta maximizingPlayer aiPlayer nodesExplored =
     (let nodes = nodesExplored + 1 in
      if nodes \<ge> MAX_NODES then (evaluate env model aiPlayer, nodes)
      else if depth = 0 \<or> gameOver model then (evaluate env model aiPlayer, nodes)
      else
        (let validMoves = getValidMoves model in
         if length validMoves = 0 then
           (let newModel = swapPlayer (copyBoard model (uninitialized env));
                opponentMoves = getValidMoves newModel
            in if length opponentMoves = 0
               then (evaluate env (newModel\<lparr>gameOver := True\<rparr>) aiPlayer, nodes)
               else alphabeta env newModel (depth - 1) alpha beta (\<not> maximizingPlayer) aiPlayer nodes)
         else
           (let validMoves' = (if length validMoves > 1
                               then orderMoves env model validMoves aiPlayer maximizingPlayer
                               else validMoves)
            in if maximizingPlayer then
                 alphabeta_maxLoop
                   (\<lambda>mv a b n. alphabeta env (simulateMove env model mv (uninitialized env))
                                 (depth - 1) a b False aiPlayer n)
                   validMoves' alpha beta INT_MIN nodes
               else
                 alphabeta_minLoop
                   (\<lambda>mv a b n. alphabeta env (simulateMove env model mv (uninitialized env))
                                 (depth - 1) a b True aiPlayer n)
                   validMoves' alpha beta INT_MAX nodes)))"
  by pat_completeness auto
termination
proof (relation "measure (\<lambda>(env, model, depth, alpha, beta, maximizingPlayer, aiPlayer, nodes).
      2 * emptySquares model + (if getValidMoves model = [] then 1 else 0))", goal_cases)
  case 1
  show ?case by simp
next
  case (2 env model depth alpha beta maximizingPlayer aiPlayer nodesExplored nodes validMoves newModel opponentMoves)
  have e: "emptySquares newModel = emptySquares model"
    unfolding 2(6) by (rule emptySquares_cong) (simp add: copyBoard_def)
  have a: "getValidMoves model = []" using 2(4,5) by simp
  have b: "getValidMoves newModel \<noteq> []" using 2(7,8) by auto
  show ?case using a b e by simp
next
  case (3 env model depth alpha beta maximizingPlayer aiPlayer nodesExplored nodes validMoves validMoves' mv a b n)
  have "mv \<in> set validMoves"
    using \<open>mv \<in> set validMoves'\<close> unfolding \<open>validMoves' = _\<close>
    by (simp add: set_orderMoves split: if_splits)
  then have "mv \<in> set (getValidMoves model)"
    unfolding \<open>validMoves = _\<close> .
  from emptySquares_simulateMove [OF this, of env "uninitialized env"]
  show ?case by simp
next
  case (4 env model depth alpha beta maximizingPlayer aiPlayer nodesExplored nodes validMoves validMoves' mv a b n)
  have "mv \<in> set validMoves"
    using \<open>mv \<in> set validMoves'\<close> unfolding \<open>validMoves' = _\<close>
    by (simp add: set_orderMoves split: if_splits)
  then have "mv \<in> set (getValidMoves model)"
    unfolding \<open>validMoves = _\<close> .
  from emptySquares_simulateMove [OF this, of env "uninitialized env"]
  show ?case by simp
qed

declare alphabeta.simps [simp del]

text \<open>
  \<open>minimax\<close>, the exhaustive search of the first variant of ai.cpp. The source calls the
  \<open>evaluate\<close> it is compiled with; \<open>ev\<close> stands for it.
\<close>

function minimax ::
  "(GameModel \<Rightarrow> Player \<Rightarrow> int) \<Rightarrow> Env \<Rightarrow> GameModel \<Rightarrow> int \<Rightarrow> bool \<Rightarrow> Player \<Rightarrow> int" where
  "minimax ev env model depth maximizingPlayer aiPlayer =
     (if depth = 0 \<or> gameOver model then ev model aiPlayer
      else
        (let validMoves = getValidMoves model in
         if length validMoves = 0 then
           (let newModel = swapPlayer (copyBoard model (uninitialized env));
                opponentMoves = getValidMoves newModel
            in if length opponentMoves = 0
               then ev (newModel\<lparr>gameOver := True\<rparr>) aiPlayer
               else minimax ev env newModel (depth - 1) (\<not> maximizingPlayer) aiPlayer)
         else if maximizingPlayer then
           foldl (\<lambda>maxEval mv.
               (let eval = minimax ev env (simulateMove env model mv (uninitialized env))
                             (depth - 1) False aiPlayer
                in if eval > maxEval then eval else maxEval))
             INT_MIN validMoves
         else
           foldl (\<lambda>minEval mv.
               (let eval = minimax ev env (simulateMove env model mv (uninitialized env))
                             (depth - 1) True aiPlayer
                in if eval < minEval then eval else minEval))
             INT_MAX validMoves))"
  by pat_completeness auto
termination
proof (relation "measure (\<lambda>(ev, env, model, depth, maximizingPlayer, aiPlayer).
      2 * emptySquares model + (if getValidMoves model = [] then 1 else 0))", goal_cases)
  case 1
  show ?case by simp
next
  case (2 ev env model depth maximizingPlayer aiPlayer validMoves newModel opponentMoves)
  have e: "emptySquares newModel = emptySquares model"
    unfolding 2(4) by (rule emptySquares_cong) (simp add: copyBoard_def)
  have a: "getValidMoves model = []" using 2(2,3) by simp
  have b: "getValidMoves newModel \<noteq> []" using 2(5,6) by auto
  show ?case using a b e by simp
next
  case (3 ev env model depth maximizingPlayer aiPlayer validMoves maxEval mv)
  have "mv \<in> set (getValidMoves model)"
    using \<open>mv \<in> set validMoves\<close> unfolding \<open>validMoves = _\<close> .
  from emptySquares_simulateMove [OF this, of env "uninitialized env"]
  show ?case by simp
next
  case (4 ev env model depth maximizingPlayer aiPlayer validMoves minEval mv)
  have "mv \<in> set (getValidMoves model)"
    using \<open>mv \<in> set validMoves\<close> unfolding \<open>validMoves = _\<close> .
  from emptySquares_simulateMove [OF this, of env "uninitialized env"]
  show ?case by simp
qed

declare minimax.simps [simp del]

text \<open>
  \<open>getBestMove\<close>: the square it returns and the node counter it leaves. The loop over
  the ordered root moves carries \<open>bestMove\<close>, \<open>bestValue\<close>, \<open>alpha\<close> and the counter.
\<close>

definition getBestMove_step ::
  "Env \<Rightarrow> GameModel \<Rightarrow> int \<Rightarrow> int \<Rightarrow> Player \<Rightarrow> Square \<times> int \<times> int \<times> int \<Rightarrow> Square
   \<Rightarrow> Square \<times> int \<times> int \<times> int" where
  "getBestMove_step env model searchDepth beta aiPlayer state mv =
     (case state of (bestMove, bestValue, alpha, nodes) \<Rightarrow>
        (case alphabeta env (simulateMove env model mv (uninitialized env))
                (searchDepth - 1) alpha beta False aiPlayer nodes of
           (moveValue, nodes') \<Rightarrow>
             (if moveValue > bestValue then mv else bestMove,
              if moveValue > bestValue then moveValue else bestValue,
              if moveValue > alpha then moveValue else alpha,
              nodes')))"

definition getBestMove :: "Env \<Rightarrow> GameModel \<Rightarrow> int \<Rightarrow> Square \<times> int" where
  "getBestMove env model nodesExplored =
     (let validMoves = getValidMoves model in
      if length validMoves = 0 then (GAME_INVALID_SQUARE, nodesExplored)
      else if length validMoves = 1 then (validMoves ! 0, nodesExplored)
      else
        (let searchDepth = getSearchDepth model;
             aiPlayer = currentPlayer model;
             validMoves' = orderMoves env model validMoves aiPlayer True
         in case foldl (getBestMove_step env model searchDepth INT_MAX aiPlayer)
                   (validMoves ! 0, INT_MIN, INT_MIN, 0) validMoves' of
              (bestMove, bestValue, alpha, nodes) \<Rightarrow> (bestMove, nodes)))"

section \<open>The parity term of the evaluation\<close>

lemma totalPieces_emptySquares: "int (emptySquares model) = 64 - totalPieces model"
proof -
  have "length (filter (\<lambda>sq. getBoardPiece model sq = PIECE_EMPTY) allSquares)
      + length (filter (\<lambda>sq. \<not> getBoardPiece model sq = PIECE_EMPTY) allSquares) = 64"
    using sum_length_filter_compl [of "\<lambda>sq. getBoardPiece model sq = PIECE_EMPTY" allSquares]
    by (simp add: length_allSquares)
  then show ?thesis
    by (simp add: emptySquares_def totalPieces_def getBoardPiece_def)
qed

lemma smod_2_nonneg: "0 \<le> k \<Longrightarrow> k smod 2 = k mod (2::int)"
  by (simp add: signed_modulo_int_def sgn_if)

text \<open>
  Claim C7. The evaluation is the sum of its five terms, and its parity term is 0 when
  fewer than 50 pieces are on the board or the number of empty squares is even;
  otherwise it is 10 when the player to move is the perspective player and -10 when
  not. The number of empty squares is 64 less the number of pieces.
\<close>

theorem parity_term:
  "evaluate env model player =
     positionalValue model player + mobilityValue env model player + stabilityValue model player
       + parityValue model player + pieceValue model player \<and>
   parityValue model player =
     (if totalPieces model < 50 \<or> even (emptySquares model) then 0
      else if currentPlayer model = player then 10 else - 10) \<and>
   int (emptySquares model) = 64 - totalPieces model"
proof -
  have e: "64 - totalPieces model = int (emptySquares model)"
    by (simp add: totalPieces_emptySquares)
  have "(int (emptySquares model) smod 2 = 1) = odd (emptySquares model)"
    by (simp add: smod_2_nonneg) presburger
  then have "parityValue model player =
     (if totalPieces model < 50 \<or> even (emptySquares model) then 0
      else if currentPlayer model = player then 10 else - 10)"
    unfolding parityValue_def Let_def e by auto
  then show ?thesis
    by (simp add: evaluate_def totalPieces_emptySquares)
qed

section \<open>Example positions\<close>

text \<open>
  An environment whose sort puts an element before its equivalents, the position
  \<open>startModel\<close> seeds, and a position with a black piece at the corner and a white piece
  beside it: White, to move, has no legal move there and Black has one.
\<close>

definition exampleLocal :: GameModel where
  "exampleLocal = \<lparr>gameOver = False, currentPlayer = PLAYER_BLACK, playerTime = (\<lambda>p. 0),
     turnTimer = 0, board = emptyBoard\<rparr>"

definition exampleEnv :: Env where
  "exampleEnv = \<lparr>tieFirst = (\<lambda>a b. True), clock = 0, uninitialized = exampleLocal\<rparr>"

definition initialPosition :: GameModel where
  "initialPosition = startModel exampleLocal 0"

definition passPosition :: GameModel where
  "passPosition = exampleLocal\<lparr>currentPlayer := PLAYER_WHITE,
     board := emptyBoard(0 := (emptyBoard 0)(0 := PIECE_BLACK, 1 := PIECE_WHITE))\<rparr>"

definition passedPosition :: GameModel where
  "passedPosition = (uninitialized exampleEnv)\<lparr>board := board passPosition,
     currentPlayer := otherPlayer (currentPlayer passPosition), gameOver := gameOver passPosition\<rparr>"

definition onlyMovePosition :: GameModel where
  "onlyMovePosition = passPosition\<lparr>currentPlayer := PLAYER_BLACK\<rparr>"

lemma passPosition_moves: "getValidMoves passPosition = []"
  by code_simp

lemma passPosition_opponent_moves:
  "getValidMoves (passPosition\<lparr>currentPlayer := PLAYER_BLACK\<rparr>) = [\<lparr>sx = 2, sy = 0\<rparr>]"
  by code_simp

lemma passedPosition_moves: "getValidMoves passedPosition = [\<lparr>sx = 2, sy = 0\<rparr>]"
  by code_simp

lemma onlyMovePosition_moves: "getValidMoves onlyMovePosition = [\<lparr>sx = 2, sy = 0\<rparr>]"
  by code_simp

section \<open>The pass inside the search\<close>

text \<open>
  Claim C3. When \<open>alphabeta\<close> is called below the node budget with a positive depth on a
  state that is not terminal and whose side to move has no legal move, it looks at the
  copy with the player flipped: when that side has no legal move either, the result is
  the evaluation of the copy marked terminal; otherwise it is the result of \<open>alphabeta\<close>
  on the copy with the depth one less, the maximizing flag negated and the same window.
\<close>

theorem alphabeta_pass:
  assumes "nodesExplored + 1 < MAX_NODES" and "depth > 0" and "\<not> gameOver model"
    and "getValidMoves model = []"
    and "newModel = (uninitialized env)\<lparr>board := board model,
           currentPlayer := otherPlayer (currentPlayer model), gameOver := gameOver model\<rparr>"
  shows "alphabeta env model depth alpha beta maximizingPlayer aiPlayer nodesExplored =
     (if getValidMoves newModel = []
      then (evaluate env (newModel\<lparr>gameOver := True\<rparr>) aiPlayer, nodesExplored + 1)
      else alphabeta env newModel (depth - 1) alpha beta (\<not> maximizingPlayer) aiPlayer
             (nodesExplored + 1))"
proof -
  have n: "swapPlayer (copyBoard model (uninitialized env)) = newModel"
    by (simp add: assms(5) swapPlayer_def copyBoard_def otherPlayer_def)
  show ?thesis
    apply (subst alphabeta.simps)
    using assms(1-4) by (simp add: Let_def n)
qed

theorem alphabeta_pass_witness:
  "getValidMoves passPosition = [] \<and> getValidMoves passedPosition = [\<lparr>sx = 2, sy = 0\<rparr>] \<and>
   alphabeta exampleEnv passPosition 1 INT_MIN INT_MAX True PLAYER_BLACK 0 =
   alphabeta exampleEnv passedPosition 0 INT_MIN INT_MAX False PLAYER_BLACK 1"
proof -
  have 1: "(0::int) + 1 < MAX_NODES" by (simp add: MAX_NODES_def)
  have 2: "(1::int) > 0" by simp
  have 3: "\<not> gameOver passPosition" by (simp add: passPosition_def exampleLocal_def)
  show ?thesis
    using alphabeta_pass [OF 1 2 3 passPosition_moves passedPosition_def,
        of INT_MIN INT_MAX True PLAYER_BLACK]
    by (simp add: passPosition_moves passedPosition_moves)
qed

section \<open>The trivial cases of the engine's entry point\<close>

lemma getValidMoves_valid: "mv \<in> set (getValidMoves model) \<Longrightarrow> isSquareValid mv"
  by (simp add: getValidMoves_member)

lemma getBestMove_loop_member:
  "fst (foldl (getBestMove_step env model searchDepth beta aiPlayer) state moves)
     \<in> insert (fst state) (set moves)"
proof (induction moves arbitrary: state)
  case Nil
  then show ?case by simp
next
  case (Cons mv moves)
  have "fst (getBestMove_step env model searchDepth beta aiPlayer state mv) \<in> {fst state, mv}"
    by (auto simp: getBestMove_step_def split: prod.splits)
  then show ?case using Cons.IH [of "getBestMove_step env model searchDepth beta aiPlayer state mv"]
    by auto
qed

lemma getBestMove_member:
  assumes "getValidMoves model \<noteq> []"
  shows "fst (getBestMove env model nodesExplored) \<in> set (getValidMoves model)"
proof -
  let ?vm = "getValidMoves model"
  have hd: "?vm ! 0 \<in> set ?vm" using assms by simp
  show ?thesis
  proof (cases "length ?vm = 1")
    case True
    then show ?thesis using hd assms by (simp add: getBestMove_def Let_def)
  next
    case False
    let ?loop = "foldl (getBestMove_step env model (getSearchDepth model) INT_MAX (currentPlayer model))
                   (?vm ! 0, INT_MIN, INT_MIN, 0) (orderMoves env model ?vm (currentPlayer model) True)"
    have "fst ?loop \<in> insert (?vm ! 0) (set ?vm)"
      using getBestMove_loop_member [of env model "getSearchDepth model" INT_MAX "currentPlayer model"
          "(?vm ! 0, INT_MIN, INT_MIN, 0)" "orderMoves env model ?vm (currentPlayer model) True"]
      by (simp add: set_orderMoves)
    then have "fst ?loop \<in> set ?vm" using hd by auto
    then show ?thesis using False assms
      by (auto simp: getBestMove_def Let_def split: prod.splits)
  qed
qed

lemma invalid_square_not_valid: "\<not> isSquareValid GAME_INVALID_SQUARE"
  by (simp add: isSquareValid_def GAME_INVALID_SQUARE_def)

text \<open>
  Claim C10. \<open>getBestMove\<close> returns the invalid-move sentinel exactly when the side to
  move has no legal move; with exactly one legal move it returns that move and leaves the
  node counter as it found it, so a counter of 0 stays 0.
\<close>

theorem getBestMove_trivial:
  "(fst (getBestMove env model nodesExplored) = GAME_INVALID_SQUARE \<longleftrightarrow> getValidMoves model = []) \<and>
   (getValidMoves model = [mv] \<longrightarrow> getBestMove env model nodesExplored = (mv, nodesExplored)) \<and>
   (getValidMoves model = [mv] \<longrightarrow> getBestMove env model 0 = (mv, 0))"
proof -
  have some: "fst (getBestMove env model nodesExplored) \<noteq> GAME_INVALID_SQUARE"
    if "getValidMoves model \<noteq> []"
    using getBestMove_member [OF that, of env nodesExplored] getValidMoves_valid invalid_square_not_valid
    by metis
  have none: "fst (getBestMove env model nodesExplored) = GAME_INVALID_SQUARE"
    if "getValidMoves model = []"
    using that by (simp add: getBestMove_def)
  have one: "getBestMove env model n = (mv, n)" if "getValidMoves model = [mv]" for n
    using that by (simp add: getBestMove_def)
  show ?thesis using some none one by blast
qed

theorem getBestMove_trivial_witness:
  "getValidMoves onlyMovePosition = [\<lparr>sx = 2, sy = 0\<rparr>] \<and>
   getBestMove exampleEnv onlyMovePosition 0 = (\<lparr>sx = 2, sy = 0\<rparr>, 0) \<and>
   getValidMoves passPosition = [] \<and>
   fst (getBestMove exampleEnv passPosition 0) = GAME_INVALID_SQUARE"
  using getBestMove_trivial [of exampleEnv onlyMovePosition 0 "\<lparr>sx = 2, sy = 0\<rparr>"]
    getBestMove_trivial [of exampleEnv passPosition 0 "\<lparr>sx = 2, sy = 0\<rparr>"]
  by (simp add: onlyMovePosition_moves passPosition_moves)

section \<open>The move generator\<close>

text \<open>The order of the scan: an earlier row, or the same row and an earlier column.\<close>

definition rowMajor_less :: "Square \<Rightarrow> Square \<Rightarrow> bool" where
  "rowMajor_less a b \<longleftrightarrow> sy a < sy b \<or> (sy a = sy b \<and> sx a < sx b)"

text \<open>
  The rule of the game, in the words of the spec: from the square, the direction holds a
  contiguous run of at least one opponent piece, followed at once by a piece of the
  mover. \<open>stepsFrom sq dx dy i\<close> is the square \<open>i\<close> steps from \<open>sq\<close>; a run on the board
  has fewer than 8 pieces.
\<close>

definition stepsFrom :: "Square \<Rightarrow> int \<Rightarrow> int \<Rightarrow> nat \<Rightarrow> Square" where
  "stepsFrom sq dx dy i = \<lparr>sx = sx sq + int i * dx, sy = sy sq + int i * dy\<rparr>"

definition brackets :: "GameModel \<Rightarrow> Square \<Rightarrow> int \<Rightarrow> int \<Rightarrow> bool" where
  "brackets model sq dx dy \<longleftrightarrow>
     (\<exists>k\<in>{1..7}.
        (\<forall>i\<in>{1..k}. isSquareValid (stepsFrom sq dx dy i) \<and>
           getBoardPiece model (stepsFrom sq dx dy i) = opponentPieceOf (currentPlayer model)) \<and>
        isSquareValid (stepsFrom sq dx dy (k + 1)) \<and>
        getBoardPiece model (stepsFrom sq dx dy (k + 1)) = pieceOf (currentPlayer model))"

lemma sorted_allSquares: "sorted_wrt rowMajor_less allSquares"
  by code_simp

text \<open>The same from the square where a walk stands: \<open>n\<close> opponent pieces, then the mover's.\<close>

definition runFrom :: "GameModel \<Rightarrow> Square \<Rightarrow> int \<Rightarrow> int \<Rightarrow> nat \<Rightarrow> bool" where
  "runFrom model c dx dy n \<longleftrightarrow>
     (\<forall>i<n. isSquareValid (stepsFrom c dx dy i) \<and>
        getBoardPiece model (stepsFrom c dx dy i) = opponentPieceOf (currentPlayer model)) \<and>
     isSquareValid (stepsFrom c dx dy n) \<and>
     getBoardPiece model (stepsFrom c dx dy n) = pieceOf (currentPlayer model)"

lemma stepsFrom_0 [simp]: "stepsFrom c dx dy 0 = c"
  by (simp add: stepsFrom_def)

lemma stepsFrom_advance: "stepsFrom (advance c dx dy) dx dy i = stepsFrom c dx dy (Suc i)"
  by (simp add: stepsFrom_def advance_def algebra_simps)

lemma pieces_differ:
  "opponentPieceOf p \<noteq> pieceOf p" "opponentPieceOf p \<noteq> PIECE_EMPTY" "pieceOf p \<noteq> PIECE_EMPTY"
  "pieceOf p \<noteq> opponentPieceOf p" "PIECE_EMPTY \<noteq> opponentPieceOf p" "PIECE_EMPTY \<noteq> pieceOf p"
  by (simp_all add: opponentPieceOf_def pieceOf_def)

lemma piece_cases: "q = PIECE_EMPTY \<or> q = opponentPieceOf p \<or> q = pieceOf p"
  by (cases q; cases p; simp add: opponentPieceOf_def pieceOf_def)

lemma runFrom_0:
  "runFrom model c dx dy 0 \<longleftrightarrow> isSquareValid c \<and> getBoardPiece model c = pieceOf (currentPlayer model)"
  by (simp add: runFrom_def)

lemma runFrom_Suc:
  "runFrom model c dx dy (Suc n) \<longleftrightarrow>
     isSquareValid c \<and> getBoardPiece model c = opponentPieceOf (currentPlayer model) \<and>
     runFrom model (advance c dx dy) dx dy n"
proof -
  have "(\<forall>i<Suc n. P i) \<longleftrightarrow> P 0 \<and> (\<forall>i<n. P (Suc i))" for P
    by (metis less_Suc_eq_0_disj)
  then show ?thesis
    unfolding runFrom_def stepsFrom_advance by (simp add: conj_ac) 
qed

lemma getValidMoves_walk_runFrom:
  assumes "dx \<noteq> 0 \<or> dy \<noteq> 0"
  shows "getValidMoves_walk model dx dy current found \<longleftrightarrow>
         (\<exists>n. (found \<or> n \<ge> 1) \<and> runFrom model current dx dy n)"
  using assms
proof (induction model dx dy current found rule: getValidMoves_walk.induct)
  case (1 model dx dy current found)
  let ?p = "getBoardPiece model current"
  let ?R = "\<lambda>f. \<exists>n. (f \<or> n \<ge> 1) \<and> runFrom model current dx dy n"
  show ?case
  proof (cases "isSquareValid current")
    case False
    then have "\<not> runFrom model current dx dy n" for n
      by (cases n) (simp_all add: runFrom_0 runFrom_Suc)
    then show ?thesis using False by (subst getValidMoves_walk.simps) simp
  next
    case valid: True
    consider (empty) "?p = PIECE_EMPTY" | (opp) "?p = opponentPieceOf (currentPlayer model)"
      | (own) "?p = pieceOf (currentPlayer model)"
      using piece_cases by blast
    then show ?thesis
    proof cases
      case empty
      then have "\<not> runFrom model current dx dy n" for n
        using pieces_differ by (cases n) (simp_all add: runFrom_0 runFrom_Suc)
      then show ?thesis using valid empty by (subst getValidMoves_walk.simps) simp
    next
      case opp
      have walk: "getValidMoves_walk model dx dy current found
            = getValidMoves_walk model dx dy (advance current dx dy) True"
        using valid opp 1(2) pieces_differ by (subst getValidMoves_walk.simps) (simp add: Let_def)
      have ih: "getValidMoves_walk model dx dy (advance current dx dy) True
            \<longleftrightarrow> (\<exists>n. runFrom model (advance current dx dy) dx dy n)"
        using 1(1) [OF _ refl _ _ 1(2)] valid opp 1(2) pieces_differ by simp
      have "?R found \<longleftrightarrow> (\<exists>n. runFrom model (advance current dx dy) dx dy n)"
      proof
        assume "?R found"
        then obtain n where n: "runFrom model current dx dy n" by blast
        have "\<not> runFrom model current dx dy 0"
          using opp pieces_differ by (simp add: runFrom_0)
        then have "n \<noteq> 0" using n by (cases n) auto
        then obtain n' where "n = Suc n'" by (cases n) auto
        then show "\<exists>n. runFrom model (advance current dx dy) dx dy n"
          using n by (auto simp: runFrom_Suc)
      next
        assume "\<exists>n. runFrom model (advance current dx dy) dx dy n"
        then obtain n where "runFrom model (advance current dx dy) dx dy n" ..
        then have "runFrom model current dx dy (Suc n)"
          using valid opp by (simp add: runFrom_Suc)
        then show "?R found" by (intro exI [of _ "Suc n"]) simp
      qed
      then show ?thesis using walk ih by simp
    next
      case own
      have walk: "getValidMoves_walk model dx dy current found = found"
        using valid own 1(2) pieces_differ
        by (subst getValidMoves_walk.simps) (auto simp: Let_def)
      have "\<not> runFrom model current dx dy (Suc n)" for n
        using own pieces_differ by (auto simp: runFrom_Suc)
      then have "runFrom model current dx dy n \<longleftrightarrow> n = 0" for n
        using valid own by (cases n) (simp_all add: runFrom_0)
      then have "?R found \<longleftrightarrow> found" by auto
      then show ?thesis using walk by simp
    qed
  qed
qed


lemma foldl_or: "foldl (\<lambda>acc d. acc \<or> P d) a ds \<longleftrightarrow> a \<or> (\<exists>d\<in>set ds. P d)"
  by (induction ds arbitrary: a) auto

lemma directions_getValidMoves_nonzero:
  "(dx, dy) \<in> set directions_getValidMoves \<Longrightarrow> dx \<noteq> 0 \<or> dy \<noteq> 0"
  by (auto simp: directions_getValidMoves_def)

lemma directions_getValidMoves_unit:
  "(dx, dy) \<in> set directions_getValidMoves \<Longrightarrow> \<bar>dx\<bar> \<le> 1 \<and> \<bar>dy\<bar> \<le> 1"
  by (auto simp: directions_getValidMoves_def)

lemma runFrom_bound:
  assumes "dx \<noteq> 0 \<or> dy \<noteq> 0" and "isSquareValid (stepsFrom sq dx dy 1)"
    and "isSquareValid (stepsFrom sq dx dy (Suc k))"
  shows "k \<le> 7"
proof -
  have x: "0 \<le> sx sq + dx" "sx sq + dx < 8" "0 \<le> sx sq + (1 + int k) * dx" "sx sq + (1 + int k) * dx < 8"
    and y: "0 \<le> sy sq + dy" "sy sq + dy < 8" "0 \<le> sy sq + (1 + int k) * dy" "sy sq + (1 + int k) * dy < 8"
    using assms(2,3) by (simp_all add: isSquareValid_def stepsFrom_def BOARD_SIZE_def)
  have "\<bar>int k * dx\<bar> \<le> 7" using x by (auto simp: algebra_simps)
  moreover have "\<bar>int k * dy\<bar> \<le> 7" using y by (auto simp: algebra_simps)
  ultimately have "int k * \<bar>dx\<bar> \<le> 7" "int k * \<bar>dy\<bar> \<le> 7"
    by (simp_all add: abs_mult)
  moreover have "\<bar>dx\<bar> \<ge> 1 \<or> \<bar>dy\<bar> \<ge> 1" using assms(1) by linarith
  ultimately have "int k \<le> 7"
    by (metis (no_types, opaque_lifting) mult.right_neutral mult_left_mono of_nat_0_le_iff order_trans)
  then show ?thesis by simp
qed

lemma isValidMove_brackets:
  "isValidMove model sq \<longleftrightarrow> (\<exists>(dx, dy)\<in>set directions_getValidMoves. brackets model sq dx dy)"
proof -
  have "getValidMoves_walk model dx dy (advance sq dx dy) False \<longleftrightarrow> brackets model sq dx dy"
    if d: "(dx, dy) \<in> set directions_getValidMoves" for dx dy
  proof -
    have nz: "dx \<noteq> 0 \<or> dy \<noteq> 0" using d by (rule directions_getValidMoves_nonzero)
    have shift: "runFrom model (advance sq dx dy) dx dy k \<longleftrightarrow>
        (\<forall>i\<in>{1..k}. isSquareValid (stepsFrom sq dx dy i) \<and>
           getBoardPiece model (stepsFrom sq dx dy i) = opponentPieceOf (currentPlayer model)) \<and>
        isSquareValid (stepsFrom sq dx dy (k + 1)) \<and>
        getBoardPiece model (stepsFrom sq dx dy (k + 1)) = pieceOf (currentPlayer model)" for k
    proof -
      have "(\<forall>i<k. P (Suc i)) \<longleftrightarrow> (\<forall>i\<in>{1..k}. P i)" for P
        by (metis Suc_le_eq Suc_le_D atLeastAtMost_iff less_Suc_eq_le One_nat_def Suc_le_mono le0)
      from this [of "\<lambda>i. isSquareValid (stepsFrom sq dx dy i) \<and>
           getBoardPiece model (stepsFrom sq dx dy i) = opponentPieceOf (currentPlayer model)"]
      show ?thesis
        unfolding runFrom_def stepsFrom_advance by simp
    qed
    have "getValidMoves_walk model dx dy (advance sq dx dy) False
        \<longleftrightarrow> (\<exists>k\<ge>1. runFrom model (advance sq dx dy) dx dy k)"
      by (simp add: getValidMoves_walk_runFrom [OF nz])
    also have "\<dots> \<longleftrightarrow> (\<exists>k\<in>{1..7}. runFrom model (advance sq dx dy) dx dy k)"
    proof
      assume "\<exists>k\<ge>1. runFrom model (advance sq dx dy) dx dy k"
      then obtain k where k: "k \<ge> 1" "runFrom model (advance sq dx dy) dx dy k" by blast
      then have "isSquareValid (stepsFrom sq dx dy 1)" "isSquareValid (stepsFrom sq dx dy (Suc k))"
        unfolding shift by auto
      from runFrom_bound [OF nz this] k show "\<exists>k\<in>{1..7}. runFrom model (advance sq dx dy) dx dy k"
        by auto
    qed auto
    also have "\<dots> \<longleftrightarrow> brackets model sq dx dy"
      unfolding brackets_def shift ..
    finally show ?thesis .
  qed
  then show ?thesis
    unfolding isValidMove_def by (auto simp: foldl_or case_prod_unfold)
qed


lemma directions_getValidMoves_all:
  "set directions_getValidMoves =
     {(dx, dy). dx \<in> {- 1, 0, 1} \<and> dy \<in> {- 1, 0, 1} \<and> (dx, dy) \<noteq> (0, 0)}"
  by (auto simp: directions_getValidMoves_def)

text \<open>
  Claim C5. For every state, \<open>getValidMoves\<close> returns a list without duplicates, in
  row-major order, of exactly the squares on the board that are empty and from which one
  of the eight directions brackets a run of opponent pieces; and \<open>playMove\<close> on any of
  them returns true.
\<close>

theorem getValidMoves_correct:
  "distinct (getValidMoves model) \<and>
   sorted_wrt rowMajor_less (getValidMoves model) \<and>
   set (getValidMoves model) =
     {mv. isSquareValid mv \<and> getBoardPiece model mv = PIECE_EMPTY \<and>
          (\<exists>(dx, dy)\<in>set directions_getValidMoves. brackets model mv dx dy)} \<and>
   set directions_getValidMoves =
     {(dx, dy). dx \<in> {- 1, 0, 1} \<and> dy \<in> {- 1, 0, 1} \<and> (dx, dy) \<noteq> (0, 0)} \<and>
   (\<forall>mv\<in>set (getValidMoves model). fst (playMove model mv currentTime))"
proof -
  have "distinct (getValidMoves model)"
    unfolding getValidMoves_def by (rule distinct_filter) (rule distinct_allSquares)
  moreover have "sorted_wrt rowMajor_less (getValidMoves model)"
    unfolding getValidMoves_def by (rule sorted_wrt_filter) (rule sorted_allSquares)
  moreover have "set (getValidMoves model) =
     {mv. isSquareValid mv \<and> getBoardPiece model mv = PIECE_EMPTY \<and>
          (\<exists>(dx, dy)\<in>set directions_getValidMoves. brackets model mv dx dy)}"
    using getValidMoves_member [of _ model] isValidMove_brackets [of model] by blast
  moreover have "fst (playMove model mv currentTime)" for mv
    by (simp add: playMove_def)
  ultimately show ?thesis
    using directions_getValidMoves_all by blast
qed

lemma initialPosition_moves:
  "getValidMoves initialPosition =
     [\<lparr>sx = 3, sy = 2\<rparr>, \<lparr>sx = 2, sy = 3\<rparr>, \<lparr>sx = 5, sy = 4\<rparr>, \<lparr>sx = 4, sy = 5\<rparr>]"
  by code_simp

theorem getValidMoves_correct_witness:
  "getValidMoves initialPosition =
     [\<lparr>sx = 3, sy = 2\<rparr>, \<lparr>sx = 2, sy = 3\<rparr>, \<lparr>sx = 5, sy = 4\<rparr>, \<lparr>sx = 4, sy = 5\<rparr>] \<and>
   distinct (getValidMoves initialPosition) \<and>
   sorted_wrt rowMajor_less (getValidMoves initialPosition) \<and>
   isSquareValid \<lparr>sx = 3, sy = 2\<rparr> \<and>
   getBoardPiece initialPosition \<lparr>sx = 3, sy = 2\<rparr> = PIECE_EMPTY \<and>
   (\<exists>(dx, dy)\<in>set directions_getValidMoves. brackets initialPosition \<lparr>sx = 3, sy = 2\<rparr> dx dy) \<and>
   fst (playMove initialPosition \<lparr>sx = 3, sy = 2\<rparr> 0)"
proof -
  have m: "\<lparr>sx = 3, sy = 2\<rparr> \<in> set (getValidMoves initialPosition)"
    by (simp add: initialPosition_moves)
  note t = getValidMoves_correct [of initialPosition 0]
  from t have "set (getValidMoves initialPosition) =
     {mv. isSquareValid mv \<and> getBoardPiece initialPosition mv = PIECE_EMPTY \<and>
          (\<exists>(dx, dy)\<in>set directions_getValidMoves. brackets initialPosition mv dx dy)}"
    by blast
  with m have "isSquareValid \<lparr>sx = 3, sy = 2\<rparr> \<and>
     getBoardPiece initialPosition \<lparr>sx = 3, sy = 2\<rparr> = PIECE_EMPTY \<and>
     (\<exists>(dx, dy)\<in>set directions_getValidMoves. brackets initialPosition \<lparr>sx = 3, sy = 2\<rparr> dx dy)"
    by blast
  moreover from t m have "fst (playMove initialPosition \<lparr>sx = 3, sy = 2\<rparr> 0)"
    by blast
  moreover from t have "distinct (getValidMoves initialPosition)"
    "sorted_wrt rowMajor_less (getValidMoves initialPosition)" by blast+
  ultimately show ?thesis using initialPosition_moves by blast
qed

section \<open>The terminal flag\<close>

text \<open>
  The states of a game: the position \<open>startModel\<close> seeds, and every state \<open>playMove\<close>
  leaves when it is given a legal move of a state of the game, at any clock reading.
\<close>

inductive reachable :: "GameModel \<Rightarrow> bool" where
  start: "reachable (startModel model now)"
| move: "reachable model \<Longrightarrow> mv \<in> set (getValidMoves model) \<Longrightarrow>
         reachable (snd (playMove model mv currentTime))"

text \<open>The player has no legal move on the board of the state.\<close>

definition noLegalMove :: "GameModel \<Rightarrow> Player \<Rightarrow> bool" where
  "noLegalMove model player \<longleftrightarrow> getValidMoves (model\<lparr>currentPlayer := player\<rparr>) = []"

lemma noLegalMove_current: "noLegalMove model (currentPlayer model) \<longleftrightarrow> getValidMoves model = []"
  unfolding noLegalMove_def using getValidMoves_cong [of "model\<lparr>currentPlayer := currentPlayer model\<rparr>" model]
  by simp

lemma noLegalMove_other:
  "noLegalMove model (otherPlayer (currentPlayer model)) \<longleftrightarrow> getValidMoves (swapPlayer model) = []"
proof -
  have "getValidMoves (model\<lparr>currentPlayer := otherPlayer (currentPlayer model)\<rparr>)
      = getValidMoves (swapPlayer model)"
    by (rule getValidMoves_cong) (simp_all add: swapPlayer_def otherPlayer_def)
  then show ?thesis by (simp add: noLegalMove_def)
qed

lemma noLegalMove_both:
  "(\<forall>p. noLegalMove model p) \<longleftrightarrow> getValidMoves model = [] \<and> getValidMoves (swapPlayer model) = []"
proof -
  have "p = currentPlayer model \<or> p = otherPlayer (currentPlayer model)" for p
    by (cases p; cases "currentPlayer model"; simp add: otherPlayer_def)
  then have "(\<forall>p. noLegalMove model p) \<longleftrightarrow>
      noLegalMove model (currentPlayer model) \<and> noLegalMove model (otherPlayer (currentPlayer model))"
    by metis
  then show ?thesis by (simp add: noLegalMove_current noLegalMove_other)
qed

lemma swapPlayer_swapPlayer: "getValidMoves (swapPlayer (swapPlayer model)) = getValidMoves model"
  by (rule getValidMoves_cong) (cases "currentPlayer model"; simp add: swapPlayer_def)+

lemma getValidMoves_gameOver_update:
  "getValidMoves (model\<lparr>gameOver := g\<rparr>) = getValidMoves model"
  by (rule getValidMoves_cong) simp_all

lemma swapPlayer_gameOver_update: "swapPlayer (model\<lparr>gameOver := g\<rparr>) = (swapPlayer model)\<lparr>gameOver := g\<rparr>"
  by (simp add: swapPlayer_def)

lemma playMove_gameOver_invariant:
  assumes "\<not> gameOver model"
  shows "gameOver (playMove_gameOver model) \<longleftrightarrow>
     getValidMoves (playMove_gameOver model) = [] \<and>
     getValidMoves (swapPlayer (playMove_gameOver model)) = []"
proof (cases "getValidMoves model = []")
  case False
  then show ?thesis using assms by (simp add: playMove_gameOver_def)
next
  case no: True
  show ?thesis
  proof (cases "getValidMoves (swapPlayer model) = []")
    case True
    then show ?thesis using no
      by (simp add: playMove_gameOver_def Let_def getValidMoves_gameOver_update
          swapPlayer_gameOver_update swapPlayer_swapPlayer)
  next
    case False
    moreover have "gameOver (swapPlayer model) = gameOver model" by (simp add: swapPlayer_def)
    ultimately show ?thesis using no assms
      by (simp add: playMove_gameOver_def Let_def)
  qed
qed

lemma gameOver_before_playMove_gameOver:
  "gameOver (swapPlayer (playMove_timer (playMove_board model mv) currentTime)) = gameOver model"
  using writesOnly_playMove_board [of model mv]
  by (simp add: swapPlayer_def playMove_timer_def writesOnly_def)

lemma startModel_moves: "getValidMoves (startModel model now) = getValidMoves initialPosition"
  by (rule getValidMoves_cong) (simp_all add: initialPosition_def startModel_def)

text \<open>
  Claim C8. In every state reachable from the seeded initial position by legal moves,
  the terminal flag is set if and only if neither player has a legal move on the board.
\<close>

theorem terminal_flag_invariant:
  "reachable model \<Longrightarrow> (gameOver model \<longleftrightarrow> (\<forall>player. noLegalMove model player))"
proof (induction rule: reachable.induct)
  case (start model now)
  have "getValidMoves (startModel model now) \<noteq> []"
    by (simp add: startModel_moves initialPosition_moves)
  moreover have "\<not> gameOver (startModel model now)" by (simp add: startModel_def)
  ultimately show ?case by (simp add: noLegalMove_both)
next
  case (move model mv currentTime)
  have "getValidMoves model \<noteq> []" using move.hyps(2) by auto
  then have "\<not> gameOver model" using move.IH by (simp add: noLegalMove_both)
  then have "\<not> gameOver (swapPlayer (playMove_timer (playMove_board model mv) currentTime))"
    by (simp add: gameOver_before_playMove_gameOver)
  from playMove_gameOver_invariant [OF this] show ?case
    by (simp add: playMove_def noLegalMove_both)
qed

theorem terminal_flag_invariant_witness:
  "reachable initialPosition \<and> \<not> gameOver initialPosition \<and>
   \<not> noLegalMove initialPosition PLAYER_BLACK"
proof -
  have r: "reachable initialPosition"
    unfolding initialPosition_def by (rule reachable.start)
  have g: "\<not> gameOver initialPosition"
    by (simp add: initialPosition_def startModel_def)
  have "currentPlayer initialPosition = PLAYER_BLACK"
    by (simp add: initialPosition_def startModel_def)
  then have "noLegalMove initialPosition PLAYER_BLACK \<longleftrightarrow> getValidMoves initialPosition = []"
    using noLegalMove_current [of initialPosition] by simp
  then have "\<not> noLegalMove initialPosition PLAYER_BLACK"
    by (simp add: initialPosition_moves)
  then show ?thesis using r g terminal_flag_invariant [OF r] by blast
qed

section \<open>Moves outside the legal set\<close>

lemma playMove_placed:
  "getBoardPiece (snd (playMove model mv currentTime)) mv = pieceOf (currentPlayer model)"
  by (simp add: getBoardPiece_def board_playMove playMove_board_placed)

lemma playMove_writes:
  "board (snd (playMove model mv currentTime)) y x = board model y x \<or>
   board (snd (playMove model mv currentTime)) y x = pieceOf (currentPlayer model)"
  using writesOnly_playMove_board [of model mv]
  by (simp add: board_playMove writesOnly_def)

text \<open>
  Claim C2 says that \<open>playMove\<close> rejects a square outside the legal moves with an error
  and leaves the board as it was. The source has no such test. In the initial position
  the corner is no legal move, and \<open>playMove\<close> on it returns true and puts a black piece
  on the corner.
\<close>

theorem playMove_unchecked_counterexample:
  "\<lparr>sx = 0, sy = 0\<rparr> \<notin> set (getValidMoves initialPosition) \<and>
   fst (playMove initialPosition \<lparr>sx = 0, sy = 0\<rparr> 0) \<and>
   getBoardPiece initialPosition \<lparr>sx = 0, sy = 0\<rparr> = PIECE_EMPTY \<and>
   getBoardPiece (snd (playMove initialPosition \<lparr>sx = 0, sy = 0\<rparr> 0)) \<lparr>sx = 0, sy = 0\<rparr> = PIECE_BLACK"
proof -
  have "currentPlayer initialPosition = PLAYER_BLACK"
    by (simp add: initialPosition_def startModel_def)
  then have "getBoardPiece (snd (playMove initialPosition \<lparr>sx = 0, sy = 0\<rparr> 0)) \<lparr>sx = 0, sy = 0\<rparr> = PIECE_BLACK"
    by (simp add: playMove_placed pieceOf_def)
  moreover have "getBoardPiece initialPosition \<lparr>sx = 0, sy = 0\<rparr> = PIECE_EMPTY"
    by (simp add: getBoardPiece_def initialPosition_def startModel_def emptyBoard_def BOARD_SIZE_def)
  moreover have "fst (playMove initialPosition \<lparr>sx = 0, sy = 0\<rparr> 0)"
    by (simp add: playMove_def)
  ultimately show ?thesis by (simp add: initialPosition_moves)
qed

text \<open>
  Claim C2, amended. \<open>playMove\<close> makes no test of legality: on every state and every
  square of the board, a legal move or not, it returns true, the square holds the mover's
  piece afterwards, and every square of the board keeps its piece or takes the mover's
  colour.
\<close>

theorem playMove_unchecked:
  "isSquareValid mv \<Longrightarrow>
   fst (playMove model mv currentTime) \<and>
   getBoardPiece (snd (playMove model mv currentTime)) mv = pieceOf (currentPlayer model) \<and>
   (\<forall>sq \<in> set allSquares.
      getBoardPiece (snd (playMove model mv currentTime)) sq = getBoardPiece model sq \<or>
      getBoardPiece (snd (playMove model mv currentTime)) sq = pieceOf (currentPlayer model))"
  using playMove_placed [of model mv currentTime] playMove_writes [of model mv currentTime]
  by (simp add: playMove_def getBoardPiece_def)

theorem playMove_unchecked_witness:
  "isSquareValid \<lparr>sx = 7, sy = 7\<rparr> \<and>
   \<lparr>sx = 7, sy = 7\<rparr> \<notin> set (getValidMoves initialPosition) \<and>
   fst (playMove initialPosition \<lparr>sx = 7, sy = 7\<rparr> 0) \<and>
   getBoardPiece (snd (playMove initialPosition \<lparr>sx = 7, sy = 7\<rparr> 0)) \<lparr>sx = 7, sy = 7\<rparr> = PIECE_BLACK \<and>
   (getBoardPiece (snd (playMove initialPosition \<lparr>sx = 7, sy = 7\<rparr> 0)) \<lparr>sx = 3, sy = 3\<rparr>
      = getBoardPiece initialPosition \<lparr>sx = 3, sy = 3\<rparr> \<or>
    getBoardPiece (snd (playMove initialPosition \<lparr>sx = 7, sy = 7\<rparr> 0)) \<lparr>sx = 3, sy = 3\<rparr>
      = PIECE_BLACK)"
proof -
  have v: "isSquareValid \<lparr>sx = 7, sy = 7\<rparr>"
    by (simp add: isSquareValid_def BOARD_SIZE_def)
  have p: "pieceOf (currentPlayer initialPosition) = PIECE_BLACK"
    by (simp add: initialPosition_def startModel_def pieceOf_def)
  have m: "\<lparr>sx = 3, sy = 3\<rparr> \<in> set allSquares"
    by (simp add: set_allSquares isSquareValid_def BOARD_SIZE_def)
  show ?thesis
    using playMove_unchecked [OF v, of initialPosition 0] v p m
    by (simp add: initialPosition_moves)
qed

section \<open>The move orderer\<close>

text \<open>
  The score of a candidate move, in the words of the spec: the one-ply evaluation of the
  simulated successor from the perspective player, negated at a minimizing node.
\<close>

definition orderScore :: "Env \<Rightarrow> GameModel \<Rightarrow> Player \<Rightarrow> bool \<Rightarrow> Square \<Rightarrow> int" where
  "orderScore env model aiPlayer maximizing mv =
     (let successor = simulateMove env model mv (uninitialized env);
          value = evaluate env successor aiPlayer
      in if maximizing then value else - value)"

lemma score_scoreMove:
  "score (scoreMove env model aiPlayer maximizing mv) = orderScore env model aiPlayer maximizing mv"
  by (simp add: scoreMove_def orderScore_def Let_def)

lemma set_std_sort: "set (std_sort tie xs) = set xs"
  using mset_std_sort [of tie xs, THEN arg_cong, of set_mset] by simp

lemma sorted_orderMoves:
  "sorted_wrt (\<lambda>a b. orderScore env model aiPlayer maximizing a \<ge> orderScore env model aiPlayer maximizing b)
     (orderMoves env model moves aiPlayer maximizing)"
proof -
  let ?scored = "map (scoreMove env model aiPlayer maximizing) moves"
  let ?f = "orderScore env model aiPlayer maximizing"
  have "sorted_wrt (\<lambda>a b. \<not> ScoredMove_less b a) (std_sort (tieFirst env) ?scored)"
    by (rule sorted_std_sort)
  moreover have "?f (move a) \<ge> ?f (move b)"
    if "a \<in> set (std_sort (tieFirst env) ?scored)" "b \<in> set (std_sort (tieFirst env) ?scored)"
      "\<not> ScoredMove_less b a" for a b
  proof -
    from that(1,2) obtain ma mb where "a = scoreMove env model aiPlayer maximizing ma"
      "b = scoreMove env model aiPlayer maximizing mb"
      unfolding set_std_sort by auto
    then show ?thesis using that(3) by (simp add: ScoredMove_less_def score_scoreMove)
  qed
  ultimately have "sorted_wrt (\<lambda>a b. ?f (move a) \<ge> ?f (move b)) (std_sort (tieFirst env) ?scored)"
    by (rule sorted_wrt_mono_rel [rotated])
  then show ?thesis
    unfolding orderMoves_def by (simp add: sorted_wrt_map)
qed

lemma sort_insert_stable:
  "sort_insert (\<lambda>a b. True) a xs = insort_key (\<lambda>sm. - score sm) a xs"
  by (induction xs) (auto simp: ScoredMove_less_def)

lemma std_sort_stable: "std_sort (\<lambda>a b. True) xs = sort_key (\<lambda>sm. - score sm) xs"
  unfolding std_sort_def sort_key_def by (induction xs) (simp_all add: sort_insert_stable)

lemma orderMoves_stable:
  assumes "tieFirst env = (\<lambda>a b. True)"
  shows "filter (\<lambda>mv. orderScore env model aiPlayer maximizing mv = k)
           (orderMoves env model moves aiPlayer maximizing)
       = filter (\<lambda>mv. orderScore env model aiPlayer maximizing mv = k) moves"
proof -
  let ?sm = "scoreMove env model aiPlayer maximizing"
  let ?scored = "map ?sm moves"
  let ?f = "orderScore env model aiPlayer maximizing"
  let ?sorted = "sort_key (\<lambda>sm. - score sm) ?scored"
  have mem: "score a = ?f (move a)" if "a \<in> set ?sorted" for a
  proof -
    from that have "a \<in> set ?scored" by (simp only: set_sort)
    then obtain ma where "a = ?sm ma" by (auto simp only: set_map)
    then show ?thesis by (simp only: score_scoreMove move_scoreMove)
  qed
  have unmap: "map move (filter Q (map ?sm xs)) = filter (\<lambda>mv. Q (?sm mv)) xs" for Q xs
    by (induction xs) simp_all
  have "filter (\<lambda>mv. ?f mv = k) (map move xs) = map move (filter (\<lambda>a. ?f (move a) = k) xs)" for xs
    by (induction xs) simp_all
  then have "filter (\<lambda>mv. ?f mv = k) (map move ?sorted)
      = map move (filter (\<lambda>a. ?f (move a) = k) ?sorted)" .
  also have "filter (\<lambda>a. ?f (move a) = k) ?sorted = filter (\<lambda>a. - score a = - k) ?sorted"
  proof (rule filter_cong [OF refl])
    fix a assume "a \<in> set ?sorted"
    from mem [OF this] show "(?f (move a) = k) = (- score a = - k)" by simp
  qed
  also have "\<dots> = filter (\<lambda>a. - score a = - k) ?scored"
    by (rule sort_key_stable)
  also have "map move \<dots> = filter (\<lambda>mv. - score (?sm mv) = - k) moves"
    by (rule unmap)
  also have "\<dots> = filter (\<lambda>mv. ?f mv = k) moves"
    by (simp only: score_scoreMove neg_equal_iff_equal)
  finally have "filter (\<lambda>mv. ?f mv = k) (map move ?sorted) = filter (\<lambda>mv. ?f mv = k) moves" .
  then show ?thesis
    by (simp only: orderMoves_def assms std_sort_stable)
qed


lemma orderScore_tieFirst:
  "orderScore (env\<lparr>tieFirst := tie\<rparr>) model aiPlayer maximizing mv
     = orderScore env model aiPlayer maximizing mv"
  by (simp add: orderScore_def evaluate_def mobilityValue_def simulateMove_def)

lemma initialPosition_scores:
  "map (orderScore exampleEnv initialPosition PLAYER_BLACK True)
     [\<lparr>sx = 3, sy = 2\<rparr>, \<lparr>sx = 2, sy = 3\<rparr>, \<lparr>sx = 5, sy = 4\<rparr>, \<lparr>sx = 4, sy = 5\<rparr>] = [2, 2, 2, 2]"
  by code_simp

lemma orderMoves_by_scores:
  "orderMoves env model moves aiPlayer maximizing =
     map move (std_sort (tieFirst env)
       (map (\<lambda>mv. \<lparr>move = mv, score = orderScore env model aiPlayer maximizing mv\<rparr>) moves))"
proof -
  have "scoreMove env model aiPlayer maximizing
      = (\<lambda>mv. \<lparr>move = mv, score = orderScore env model aiPlayer maximizing mv\<rparr>)"
    by (rule ext) (simp add: scoreMove_def orderScore_def Let_def)
  then show ?thesis by (simp add: orderMoves_def)
qed

subsection \<open>The sort of the library\<close>

text \<open>
  Modelled from the C++ standard library: \<open>std::sort\<close> is library code, no part of the
  repository. The definitions below follow the sort of libstdc++ (\<open>bits/stl_algo.h\<close>): on a
  range of more than 16 elements the introsort loop, which partitions around the median
  of three, and then the insertion sorts. The array is a list and an iterator an index
  into it; the comparison is \<open>operator<\<close> of \<open>ScoredMove\<close>. A read outside the array is
  \<open>None\<close>, and so is the heap sort the library turns to when the depth limit is used up.
  The loops of the two insertion sorts run in the library until \<open>i\<close> meets \<open>last\<close>; they
  start at or below it.
\<close>

definition iter_swap :: "ScoredMove list \<Rightarrow> nat \<Rightarrow> nat \<Rightarrow> ScoredMove list" where
  "iter_swap a i j = a[i := a ! j, j := a ! i]"

fun unguarded_linear_insert :: "ScoredMove list \<Rightarrow> ScoredMove \<Rightarrow> nat \<Rightarrow> ScoredMove list option" where
  "unguarded_linear_insert a val 0 = None"
| "unguarded_linear_insert a val (Suc next) =
     (if ScoredMove_less val (a ! next)
      then unguarded_linear_insert (a[Suc next := a ! next]) val next
      else Some (a[Suc next := val]))"

function insertion_sort_loop :: "ScoredMove list \<Rightarrow> nat \<Rightarrow> nat \<Rightarrow> nat \<Rightarrow> ScoredMove list option" where
  "insertion_sort_loop a first i last' =
     (if i < last' then
        (case (if ScoredMove_less (a ! i) (a ! first)
               then Some (take first a @ a ! i # take (i - first) (drop first a) @ drop (Suc i) a)
               else unguarded_linear_insert a (a ! i) i) of
           None \<Rightarrow> None
         | Some a' \<Rightarrow> insertion_sort_loop a' first (Suc i) last')
      else Some a)"
  by pat_completeness auto
termination by (relation "measure (\<lambda>(a, first, i, last'). last' - i)") auto

definition insertion_sort :: "ScoredMove list \<Rightarrow> nat \<Rightarrow> nat \<Rightarrow> ScoredMove list option" where
  "insertion_sort a first last' =
     (if first = last' then Some a else insertion_sort_loop a first (first + 1) last')"

function unguarded_insertion_sort :: "ScoredMove list \<Rightarrow> nat \<Rightarrow> nat \<Rightarrow> ScoredMove list option" where
  "unguarded_insertion_sort a i last' =
     (if i < last' then
        (case unguarded_linear_insert a (a ! i) i of
           None \<Rightarrow> None
         | Some a' \<Rightarrow> unguarded_insertion_sort a' (Suc i) last')
      else Some a)"
  by pat_completeness auto
termination by (relation "measure (\<lambda>(a, i, last'). last' - i)") auto

definition final_insertion_sort :: "ScoredMove list \<Rightarrow> nat \<Rightarrow> nat \<Rightarrow> ScoredMove list option" where
  "final_insertion_sort a first last' =
     (if last' - first > 16 then
        (case insertion_sort a first (first + 16) of
           None \<Rightarrow> None
         | Some a' \<Rightarrow> unguarded_insertion_sort a' (first + 16) last')
      else insertion_sort a first last')"

definition move_median_to_first :: "ScoredMove list \<Rightarrow> nat \<Rightarrow> nat \<Rightarrow> nat \<Rightarrow> nat \<Rightarrow> ScoredMove list" where
  "move_median_to_first a result x y z =
     (if ScoredMove_less (a ! x) (a ! y) then
        (if ScoredMove_less (a ! y) (a ! z) then iter_swap a result y
         else if ScoredMove_less (a ! x) (a ! z) then iter_swap a result z
         else iter_swap a result x)
      else if ScoredMove_less (a ! x) (a ! z) then iter_swap a result x
      else if ScoredMove_less (a ! y) (a ! z) then iter_swap a result z
      else iter_swap a result y)"

text \<open>The two inner loops of \<open>__unguarded_partition\<close>, and the function.\<close>

function scan_up :: "ScoredMove list \<Rightarrow> nat \<Rightarrow> nat \<Rightarrow> nat option" where
  "scan_up a first pivot =
     (if first \<ge> length a then None
      else if ScoredMove_less (a ! first) (a ! pivot) then scan_up a (Suc first) pivot
      else Some first)"
  by pat_completeness auto
termination by (relation "measure (\<lambda>(a, first, pivot). length a - first)") auto

fun scan_down :: "ScoredMove list \<Rightarrow> nat \<Rightarrow> nat \<Rightarrow> nat option" where
  "scan_down a pivot 0 = (if ScoredMove_less (a ! pivot) (a ! 0) then None else Some 0)"
| "scan_down a pivot (Suc last') =
     (if ScoredMove_less (a ! pivot) (a ! Suc last') then scan_down a pivot last' else Some (Suc last'))"

lemma scan_down_le: "scan_down a pivot last' = Some l \<Longrightarrow> l \<le> last'"
  by (induction last') (auto split: if_splits)

function unguarded_partition ::
  "ScoredMove list \<Rightarrow> nat \<Rightarrow> nat \<Rightarrow> nat \<Rightarrow> (nat \<times> ScoredMove list) option" where
  "unguarded_partition a first last' pivot =
     (case scan_up a first pivot of
        None \<Rightarrow> None
      | Some first1 \<Rightarrow>
          (if last' = 0 then None
           else case scan_down a pivot (last' - 1) of
                  None \<Rightarrow> None
                | Some last1 \<Rightarrow>
                    if \<not> first1 < last1 then Some (first1, a)
                    else unguarded_partition (iter_swap a first1 last1) (Suc first1) last1 pivot))"
  by pat_completeness auto
termination
  by (relation "measure (\<lambda>(a, first, last', pivot). last')") (auto dest: scan_down_le)

definition unguarded_partition_pivot ::
  "ScoredMove list \<Rightarrow> nat \<Rightarrow> nat \<Rightarrow> (nat \<times> ScoredMove list) option" where
  "unguarded_partition_pivot a first last' =
     (let mid = first + (last' - first) div 2
      in unguarded_partition (move_median_to_first a first (first + 1) mid (last' - 1))
           (first + 1) last' first)"

fun introsort_loop :: "ScoredMove list \<Rightarrow> nat \<Rightarrow> nat \<Rightarrow> nat \<Rightarrow> ScoredMove list option" where
  "introsort_loop a first last' 0 = (if last' - first > 16 then None else Some a)"
| "introsort_loop a first last' (Suc depth_limit) =
     (if last' - first > 16 then
        (case unguarded_partition_pivot a first last' of
           None \<Rightarrow> None
         | Some (cut', a') \<Rightarrow>
             (case introsort_loop a' cut' last' depth_limit of
                None \<Rightarrow> None
              | Some a'' \<Rightarrow> introsort_loop a'' first cut' depth_limit))
      else Some a)"

text \<open>\<open>__lg\<close>: the position of the highest bit.\<close>

fun lg :: "nat \<Rightarrow> nat" where
  "lg n = (if n \<le> 1 then 0 else Suc (lg (n div 2)))"

definition gnu_sort :: "ScoredMove list \<Rightarrow> ScoredMove list option" where
  "gnu_sort a =
     (if a = [] then Some a
      else case introsort_loop a 0 (length a) (lg (length a) * 2) of
             None \<Rightarrow> None
           | Some a' \<Rightarrow> final_insertion_sort a' 0 (length a))"

text \<open>
  A position of 14 pieces in which Black, to move, has 17 legal moves, and the
  environment in which \<open>std::sort\<close> leaves the candidates of that position in the order
  the sort above gives them: of two equivalent elements the one that sort puts first
  goes first.
\<close>

definition busyPosition :: GameModel where
  "busyPosition = exampleLocal\<lparr>board := emptyBoard
     (2 := (emptyBoard 2)(3 := PIECE_WHITE),
      3 := (emptyBoard 3)(2 := PIECE_WHITE, 3 := PIECE_WHITE, 4 := PIECE_BLACK, 5 := PIECE_WHITE),
      4 := (emptyBoard 4)(1 := PIECE_WHITE, 2 := PIECE_BLACK, 3 := PIECE_BLACK, 4 := PIECE_BLACK),
      5 := (emptyBoard 5)(3 := PIECE_WHITE, 4 := PIECE_BLACK, 5 := PIECE_WHITE, 6 := PIECE_WHITE),
      6 := (emptyBoard 6)(5 := PIECE_BLACK))\<rparr>"

definition sortedBefore :: "ScoredMove list option \<Rightarrow> ScoredMove \<Rightarrow> ScoredMove \<Rightarrow> bool" where
  "sortedBefore result a b =
     (case result of
        None \<Rightarrow> True
      | Some out \<Rightarrow> length (takeWhile (\<lambda>c. c \<noteq> a) out) < length (takeWhile (\<lambda>c. c \<noteq> b) out))"

definition gnuEnv :: Env where
  "gnuEnv = exampleEnv\<lparr>tieFirst := sortedBefore
     (gnu_sort (map (scoreMove exampleEnv busyPosition PLAYER_BLACK True) (getValidMoves busyPosition)))\<rparr>"

definition busyScored :: "ScoredMove list" where
  "busyScored =
     [\<lparr>move = \<lparr>sx = 2, sy = 1\<rparr>, score = 16\<rparr>, \<lparr>move = \<lparr>sx = 3, sy = 1\<rparr>, score = 14\<rparr>,
      \<lparr>move = \<lparr>sx = 1, sy = 2\<rparr>, score = 51\<rparr>, \<lparr>move = \<lparr>sx = 2, sy = 2\<rparr>, score = 53\<rparr>,
      \<lparr>move = \<lparr>sx = 4, sy = 2\<rparr>, score = 20\<rparr>, \<lparr>move = \<lparr>sx = 6, sy = 2\<rparr>, score = 13\<rparr>,
      \<lparr>move = \<lparr>sx = 1, sy = 3\<rparr>, score = 43\<rparr>, \<lparr>move = \<lparr>sx = 6, sy = 3\<rparr>, score = 13\<rparr>,
      \<lparr>move = \<lparr>sx = 0, sy = 4\<rparr>, score = 48\<rparr>, \<lparr>move = \<lparr>sx = 5, sy = 4\<rparr>, score = 53\<rparr>,
      \<lparr>move = \<lparr>sx = 7, sy = 4\<rparr>, score = 45\<rparr>, \<lparr>move = \<lparr>sx = 2, sy = 5\<rparr>, score = 23\<rparr>,
      \<lparr>move = \<lparr>sx = 7, sy = 5\<rparr>, score = 58\<rparr>, \<lparr>move = \<lparr>sx = 2, sy = 6\<rparr>, score = 10\<rparr>,
      \<lparr>move = \<lparr>sx = 3, sy = 6\<rparr>, score = 10\<rparr>, \<lparr>move = \<lparr>sx = 4, sy = 6\<rparr>, score = 10\<rparr>,
      \<lparr>move = \<lparr>sx = 6, sy = 6\<rparr>, score = 2\<rparr>]"

definition busySorted :: "ScoredMove list" where
  "busySorted =
     [\<lparr>move = \<lparr>sx = 7, sy = 5\<rparr>, score = 58\<rparr>, \<lparr>move = \<lparr>sx = 2, sy = 2\<rparr>, score = 53\<rparr>,
      \<lparr>move = \<lparr>sx = 5, sy = 4\<rparr>, score = 53\<rparr>, \<lparr>move = \<lparr>sx = 1, sy = 2\<rparr>, score = 51\<rparr>,
      \<lparr>move = \<lparr>sx = 0, sy = 4\<rparr>, score = 48\<rparr>, \<lparr>move = \<lparr>sx = 7, sy = 4\<rparr>, score = 45\<rparr>,
      \<lparr>move = \<lparr>sx = 1, sy = 3\<rparr>, score = 43\<rparr>, \<lparr>move = \<lparr>sx = 2, sy = 5\<rparr>, score = 23\<rparr>,
      \<lparr>move = \<lparr>sx = 4, sy = 2\<rparr>, score = 20\<rparr>, \<lparr>move = \<lparr>sx = 2, sy = 1\<rparr>, score = 16\<rparr>,
      \<lparr>move = \<lparr>sx = 3, sy = 1\<rparr>, score = 14\<rparr>, \<lparr>move = \<lparr>sx = 6, sy = 3\<rparr>, score = 13\<rparr>,
      \<lparr>move = \<lparr>sx = 6, sy = 2\<rparr>, score = 13\<rparr>, \<lparr>move = \<lparr>sx = 2, sy = 6\<rparr>, score = 10\<rparr>,
      \<lparr>move = \<lparr>sx = 3, sy = 6\<rparr>, score = 10\<rparr>, \<lparr>move = \<lparr>sx = 4, sy = 6\<rparr>, score = 10\<rparr>,
      \<lparr>move = \<lparr>sx = 6, sy = 6\<rparr>, score = 2\<rparr>]"

lemma busyPosition_moves:
  "getValidMoves busyPosition =
     [\<lparr>sx = 2, sy = 1\<rparr>, \<lparr>sx = 3, sy = 1\<rparr>, \<lparr>sx = 1, sy = 2\<rparr>, \<lparr>sx = 2, sy = 2\<rparr>,
      \<lparr>sx = 4, sy = 2\<rparr>, \<lparr>sx = 6, sy = 2\<rparr>, \<lparr>sx = 1, sy = 3\<rparr>, \<lparr>sx = 6, sy = 3\<rparr>,
      \<lparr>sx = 0, sy = 4\<rparr>, \<lparr>sx = 5, sy = 4\<rparr>, \<lparr>sx = 7, sy = 4\<rparr>, \<lparr>sx = 2, sy = 5\<rparr>,
      \<lparr>sx = 7, sy = 5\<rparr>, \<lparr>sx = 2, sy = 6\<rparr>, \<lparr>sx = 3, sy = 6\<rparr>, \<lparr>sx = 4, sy = 6\<rparr>,
      \<lparr>sx = 6, sy = 6\<rparr>]"
  by code_simp

lemma busyPosition_scores_1:
  "map (orderScore exampleEnv busyPosition PLAYER_BLACK True)
     [\<lparr>sx = 2, sy = 1\<rparr>, \<lparr>sx = 3, sy = 1\<rparr>, \<lparr>sx = 1, sy = 2\<rparr>, \<lparr>sx = 2, sy = 2\<rparr>]
   = [16, 14, 51, 53]"
  by code_simp

lemma busyPosition_scores_2:
  "map (orderScore exampleEnv busyPosition PLAYER_BLACK True)
     [\<lparr>sx = 4, sy = 2\<rparr>, \<lparr>sx = 6, sy = 2\<rparr>, \<lparr>sx = 1, sy = 3\<rparr>, \<lparr>sx = 6, sy = 3\<rparr>]
   = [20, 13, 43, 13]"
  by code_simp

lemma busyPosition_scores_3:
  "map (orderScore exampleEnv busyPosition PLAYER_BLACK True)
     [\<lparr>sx = 0, sy = 4\<rparr>, \<lparr>sx = 5, sy = 4\<rparr>, \<lparr>sx = 7, sy = 4\<rparr>, \<lparr>sx = 2, sy = 5\<rparr>]
   = [48, 53, 45, 23]"
  by code_simp

lemma busyPosition_scores_4:
  "map (orderScore exampleEnv busyPosition PLAYER_BLACK True)
     [\<lparr>sx = 7, sy = 5\<rparr>, \<lparr>sx = 2, sy = 6\<rparr>, \<lparr>sx = 3, sy = 6\<rparr>, \<lparr>sx = 4, sy = 6\<rparr>,
      \<lparr>sx = 6, sy = 6\<rparr>]
   = [58, 10, 10, 10, 2]"
  by code_simp

lemma gnu_sort_busyScored: "gnu_sort busyScored = Some busySorted"
  by code_simp

lemma std_sort_busyScored: "std_sort (sortedBefore (Some busySorted)) busyScored = busySorted"
  by code_simp

lemma scoreMove_orderScore:
  "scoreMove env model aiPlayer maximizing mv =
     \<lparr>move = mv, score = orderScore env model aiPlayer maximizing mv\<rparr>"
  by (simp add: scoreMove_def orderScore_def Let_def)

lemma busyPosition_scored:
  "map (scoreMove exampleEnv busyPosition PLAYER_BLACK True) (getValidMoves busyPosition) = busyScored"
  using busyPosition_scores_1 busyPosition_scores_2 busyPosition_scores_3 busyPosition_scores_4
  by (simp add: busyPosition_moves scoreMove_orderScore busyScored_def)

lemma tieFirst_gnuEnv: "tieFirst gnuEnv = sortedBefore (Some busySorted)"
  by (simp add: gnuEnv_def busyPosition_scored gnu_sort_busyScored)

lemma scoreMove_gnuEnv:
  "scoreMove gnuEnv model aiPlayer maximizing = scoreMove exampleEnv model aiPlayer maximizing"
  by (rule ext) (simp add: scoreMove_orderScore gnuEnv_def orderScore_tieFirst)

lemma busyPosition_ordered:
  "orderMoves gnuEnv busyPosition (getValidMoves busyPosition) PLAYER_BLACK True = map move busySorted"
  by (simp add: orderMoves_def scoreMove_gnuEnv busyPosition_scored tieFirst_gnuEnv
      std_sort_busyScored)

subsection \<open>The position arises in play\<close>

text \<open>
  Ten moves from the opening position lead to the position above. \<open>gameMoves\<close> are the
  moves, Black's first, and \<open>gameRows\<close> the boards of that game, from the opening
  position to the last: a string for a row, \<open>B\<close> for a black and \<open>W\<close> for a white piece.
  \<open>position\<close> makes the state of a player to move and such a board; \<open>cellsOf\<close> lists the
  64 cells of a state, and \<open>offBoardEmpty\<close> says that the table of the model holds nothing
  outside them.
\<close>

definition offBoardEmpty :: "GameModel \<Rightarrow> bool" where
  "offBoardEmpty model \<longleftrightarrow>
     (\<forall>y x. \<not> isSquareValid \<lparr>sx = x, sy = y\<rparr> \<longrightarrow> board model y x = PIECE_EMPTY)"

definition cellsOf :: "GameModel \<Rightarrow> Piece list" where
  "cellsOf model = map (getBoardPiece model) allSquares"

definition pieceOfChar :: "char \<Rightarrow> Piece" where
  "pieceOfChar c = (if c = CHR ''B'' then PIECE_BLACK else if c = CHR ''W'' then PIECE_WHITE else PIECE_EMPTY)"

definition position :: "Player \<Rightarrow> string list \<Rightarrow> GameModel" where
  "position player rows = exampleLocal\<lparr>currentPlayer := player,
     board := (\<lambda>y x. if isSquareValid \<lparr>sx = x, sy = y\<rparr>
                      then pieceOfChar (rows ! nat y ! nat x) else PIECE_EMPTY)\<rparr>"

lemma offBoardEmpty_position: "offBoardEmpty (position player rows)"
  by (simp add: offBoardEmpty_def position_def)

lemma offBoardEmpty_setBoardPiece:
  "isSquareValid sq \<Longrightarrow> offBoardEmpty model \<Longrightarrow> offBoardEmpty (setBoardPiece model sq piece)"
  by (auto simp: offBoardEmpty_def setBoardPiece_def isSquareValid_def)

lemma offBoardEmpty_flips:
  "\<forall>sq \<in> set sqs. isSquareValid sq \<Longrightarrow> offBoardEmpty model \<Longrightarrow>
   offBoardEmpty (foldl (\<lambda>m sq. setBoardPiece m sq piece) model sqs)"
  by (induction sqs arbitrary: model) (simp_all add: offBoardEmpty_setBoardPiece)

lemma offBoardEmpty_playMove_walk:
  "\<forall>sq \<in> set toFlip. isSquareValid sq \<Longrightarrow> offBoardEmpty model \<Longrightarrow>
   offBoardEmpty (playMove_walk model piece enemyPiece dx dy current toFlip)"
proof (induction model piece enemyPiece dx dy current toFlip rule: playMove_walk.induct)
  case (1 model piece enemyPiece dx dy current toFlip)
  show ?case
    apply (subst playMove_walk.simps)
    using 1 by (auto simp: Let_def offBoardEmpty_flips simp del: foldl_append)
qed

lemma offBoardEmpty_directions:
  "offBoardEmpty model \<Longrightarrow>
   offBoardEmpty (foldl (\<lambda>m (dx, dy). playMove_walk m piece enemyPiece dx dy (start dx dy) []) model dirs)"
  by (induction dirs arbitrary: model) (auto simp: offBoardEmpty_playMove_walk)

lemma offBoardEmpty_playMove_board:
  assumes "isSquareValid mv" and "offBoardEmpty model"
  shows "offBoardEmpty (playMove_board model mv)"
  unfolding playMove_board_eq
  by (rule offBoardEmpty_directions [where start = "\<lambda>dx dy. advance mv dx dy"])
    (rule offBoardEmpty_setBoardPiece [OF assms])

lemma board_eq_cells:
  assumes "offBoardEmpty model" and "offBoardEmpty model'" and "cellsOf model = cellsOf model'"
  shows "board model = board model'"
proof (rule ext, rule ext)
  fix y x
  show "board model y x = board model' y x"
  proof (cases "isSquareValid \<lparr>sx = x, sy = y\<rparr>")
    case True
    then have "\<lparr>sx = x, sy = y\<rparr> \<in> set allSquares" by (simp add: set_allSquares)
    with assms(3) have "getBoardPiece model \<lparr>sx = x, sy = y\<rparr> = getBoardPiece model' \<lparr>sx = x, sy = y\<rparr>"
      unfolding cellsOf_def by (simp only: map_eq_conv)
    then show ?thesis by (simp add: getBoardPiece_def)
  next
    case False
    with assms(1,2) show ?thesis by (simp add: offBoardEmpty_def)
  qed
qed

lemma playMove_position:
  assumes "isSquareValid mv"
    and "cellsOf (playMove_board (position player rows) mv) = cellsOf (position (otherPlayer player) rows')"
    and "getValidMoves (position (otherPlayer player) rows') \<noteq> []"
  shows "snd (playMove (position player rows) mv 0) = position (otherPlayer player) rows'"
proof -
  let ?m = "position player rows" and ?m' = "position (otherPlayer player) rows'"
  have b: "board (playMove_board ?m mv) = board ?m'"
    by (rule board_eq_cells [OF offBoardEmpty_playMove_board [OF assms(1) offBoardEmpty_position]
          offBoardEmpty_position assms(2)])
  let ?s = "swapPlayer (playMove_timer (playMove_board ?m mv) 0)"
  have w: "writesOnly (pieceOf (currentPlayer ?m)) ?m (playMove_board ?m mv)"
    by (rule writesOnly_playMove_board)
  have cp: "currentPlayer ?s = otherPlayer player"
    using w by (simp add: swapPlayer_def playMove_timer_def writesOnly_def position_def otherPlayer_def)
  have "getValidMoves ?s = getValidMoves ?m'"
    by (rule getValidMoves_cong) (simp_all add: b cp, simp add: position_def)
  with assms(3) have "playMove_gameOver ?s = ?s"
    by (simp add: playMove_gameOver_def)
  then have eq: "snd (playMove ?m mv 0) = ?s" by (simp add: playMove_def)
  have pt: "playerTime ?s = (\<lambda>p. 0)"
    using w by (auto simp: swapPlayer_def playMove_timer_def writesOnly_def position_def exampleLocal_def)
  have tt: "turnTimer ?s = 0" by (simp add: swapPlayer_def playMove_timer_def)
  have go: "gameOver ?s = False"
    using w by (simp add: swapPlayer_def playMove_timer_def writesOnly_def position_def exampleLocal_def)
  have "?s = ?m'"
    by (rule GameModel.equality)
      (simp_all add: b cp pt tt go, simp_all add: position_def exampleLocal_def)
  with eq show ?thesis by simp
qed


definition gameMoves :: "Square list" where
  "gameMoves =
     [\<lparr>sx = 4, sy = 5\<rparr>, \<lparr>sx = 3, sy = 5\<rparr>, \<lparr>sx = 2, sy = 3\<rparr>, \<lparr>sx = 5, sy = 3\<rparr>,
      \<lparr>sx = 5, sy = 5\<rparr>, \<lparr>sx = 3, sy = 2\<rparr>, \<lparr>sx = 2, sy = 4\<rparr>, \<lparr>sx = 6, sy = 5\<rparr>,
      \<lparr>sx = 5, sy = 6\<rparr>, \<lparr>sx = 1, sy = 4\<rparr>]"

definition gameRows :: "string list list" where
  "gameRows =
     [[''........'', ''........'', ''........'', ''...WB...'', ''...BW...'', ''........'', ''........'', ''........''],
      [''........'', ''........'', ''........'', ''...WB...'', ''...BB...'', ''....B...'', ''........'', ''........''],
      [''........'', ''........'', ''........'', ''...WB...'', ''...WB...'', ''...WB...'', ''........'', ''........''],
      [''........'', ''........'', ''........'', ''..BBB...'', ''...BB...'', ''...WB...'', ''........'', ''........''],
      [''........'', ''........'', ''........'', ''..BBBW..'', ''...BW...'', ''...WB...'', ''........'', ''........''],
      [''........'', ''........'', ''........'', ''..BBBW..'', ''...BB...'', ''...WBB..'', ''........'', ''........''],
      [''........'', ''........'', ''...W....'', ''..BWBW..'', ''...WB...'', ''...WBB..'', ''........'', ''........''],
      [''........'', ''........'', ''...W....'', ''..BWBW..'', ''..BBB...'', ''...WBB..'', ''........'', ''........''],
      [''........'', ''........'', ''...W....'', ''..BWBW..'', ''..BBB...'', ''...WWWW.'', ''........'', ''........''],
      [''........'', ''........'', ''...W....'', ''..BWBW..'', ''..BBB...'', ''...WBWW.'', ''.....B..'', ''........''],
      [''........'', ''........'', ''...W....'', ''..WWBW..'', ''.WBBB...'', ''...WBWW.'', ''.....B..'', ''........'']]"

definition positionAt :: "nat \<Rightarrow> GameModel" where
  "positionAt k = position (if even k then PLAYER_BLACK else PLAYER_WHITE) (gameRows ! k)"

definition legalAt :: "nat \<Rightarrow> bool" where
  "legalAt k \<longleftrightarrow> gameMoves ! k \<in> set (getValidMoves (positionAt k))"

definition cellsAt :: "nat \<Rightarrow> bool" where
  "cellsAt k \<longleftrightarrow>
     cellsOf (playMove_board (positionAt k) (gameMoves ! k)) = cellsOf (positionAt (Suc k))"

lemma gameMoves_legal_1:
  "legalAt 0 \<and> legalAt 1 \<and> legalAt 2 \<and> legalAt 3 \<and> legalAt 4"
  by code_simp

lemma gameMoves_legal_2:
  "legalAt 5 \<and> legalAt 6 \<and> legalAt 7 \<and> legalAt 8 \<and> legalAt 9"
  by code_simp

lemma gameMoves_legal:
  "legalAt 0 \<and> legalAt 1 \<and> legalAt 2 \<and> legalAt 3 \<and> legalAt 4 \<and>
   legalAt 5 \<and> legalAt 6 \<and> legalAt 7 \<and> legalAt 8 \<and> legalAt 9"
  using gameMoves_legal_1 gameMoves_legal_2 by simp

lemma gameMoves_cells_1:
  "cellsAt 0 \<and> cellsAt 1 \<and> cellsAt 2 \<and> cellsAt 3 \<and> cellsAt 4"
  by code_simp

lemma gameMoves_cells_2:
  "cellsAt 5 \<and> cellsAt 6 \<and> cellsAt 7 \<and> cellsAt 8 \<and> cellsAt 9"
  by code_simp

lemma positionAt_start_cells: "cellsOf initialPosition = cellsOf (positionAt 0)"
  by code_simp

lemma positionAt_end_cells: "cellsOf busyPosition = cellsOf (positionAt 10)"
  by code_simp

lemma positionAt_last_moves: "getValidMoves (positionAt 10) \<noteq> []"
proof -
  have "board busyPosition = board (positionAt 10)"
    by (rule board_eq_cells [OF _ _ positionAt_end_cells])
      (auto simp: offBoardEmpty_def busyPosition_def emptyBoard_def isSquareValid_def BOARD_SIZE_def
         positionAt_def position_def)
  moreover have "currentPlayer busyPosition = currentPlayer (positionAt 10)"
    by (simp add: busyPosition_def positionAt_def position_def exampleLocal_def)
  ultimately have "getValidMoves busyPosition = getValidMoves (positionAt 10)"
    by (rule getValidMoves_cong)
  then have "getValidMoves (positionAt 10) = getValidMoves busyPosition" by (rule sym)
  then show ?thesis by (simp add: busyPosition_moves)
qed

lemma positionAt_start: "positionAt 0 = initialPosition"
proof -
  have "board initialPosition = board (positionAt 0)"
    by (rule board_eq_cells [OF _ _ positionAt_start_cells])
      (auto simp: offBoardEmpty_def initialPosition_def startModel_def emptyBoard_def
         isSquareValid_def BOARD_SIZE_def positionAt_def position_def)
  then show ?thesis
    by (intro GameModel.equality)
      (simp_all add: positionAt_def position_def initialPosition_def startModel_def exampleLocal_def)
qed

lemma positionAt_end: "positionAt 10 = busyPosition"
proof -
  have "board busyPosition = board (positionAt 10)"
    by (rule board_eq_cells [OF _ _ positionAt_end_cells])
      (auto simp: offBoardEmpty_def busyPosition_def emptyBoard_def isSquareValid_def BOARD_SIZE_def
         positionAt_def position_def)
  then show ?thesis
    by (intro GameModel.equality)
      (simp_all add: positionAt_def position_def busyPosition_def exampleLocal_def)
qed

lemma positionAt_step:
  assumes "k < 10"
  shows "gameMoves ! k \<in> set (getValidMoves (positionAt k)) \<and>
         snd (playMove (positionAt k) (gameMoves ! k) 0) = positionAt (Suc k)"
proof -
  from assms have k: "k \<in> {0, 1, 2, 3, 4, 5, 6, 7, 8, 9}" by auto
  have l: "legalAt k" using k gameMoves_legal by auto
  have c: "cellsAt k" using k gameMoves_cells_1 gameMoves_cells_2 by auto
  have n: "getValidMoves (positionAt (Suc k)) \<noteq> []"
  proof (cases "Suc k = 10")
    case True
    then show ?thesis using positionAt_last_moves by simp
  next
    case False
    define j where "j = Suc k"
    with False assms have "j \<in> {1, 2, 3, 4, 5, 6, 7, 8, 9}" by auto
    then have "legalAt j" using gameMoves_legal by auto
    then show ?thesis by (auto simp: legalAt_def j_def)
  qed
  have v: "isSquareValid (gameMoves ! k)"
    using l by (auto simp: legalAt_def getValidMoves_def set_allSquares)
  let ?p = "if even k then PLAYER_BLACK else PLAYER_WHITE"
  have c': "cellsOf (playMove_board (position ?p (gameRows ! k)) (gameMoves ! k))
      = cellsOf (position (otherPlayer ?p) (gameRows ! Suc k))"
    using c by (cases "even k") (simp_all add: cellsAt_def positionAt_def otherPlayer_def)
  have n': "getValidMoves (position (otherPlayer ?p) (gameRows ! Suc k)) \<noteq> []"
    using n by (cases "even k") (simp_all add: positionAt_def otherPlayer_def)
  from playMove_position [OF v c' n'] l show ?thesis
    by (cases "even k") (simp_all add: legalAt_def positionAt_def otherPlayer_def)
qed

lemma positionAt_reachable: "k \<le> 10 \<Longrightarrow> reachable (positionAt k)"
proof (induction k)
  case 0
  show ?case unfolding positionAt_start initialPosition_def by (rule reachable.start)
next
  case (Suc k)
  then have "reachable (positionAt k)" and s: "k < 10" by simp_all
  from reachable.move [OF this(1), of "gameMoves ! k" 0] positionAt_step [OF s]
  show ?case by simp
qed

lemma busyPosition_reachable: "reachable busyPosition"
  using positionAt_reachable [of 10] by (simp add: positionAt_end)

text \<open>
  Claim C6 says that moves of equal score keep their row-major order. The source sorts
  with \<open>std::sort\<close>, which promises no order among equivalent elements, and the sort of
  libstdc++ partitions a range of more than 16 elements around a pivot. Black has 17
  legal moves in the position above, which arises in play. The moves (6,2) and (6,3) have the same score, 13,
  and (6,2) is the earlier in row-major order; the orderer returns (6,3) before (6,2),
  as the sort of the library does.
\<close>

theorem orderMoves_stable_counterexample:
  "reachable busyPosition \<and>
   getValidMoves busyPosition =
     [\<lparr>sx = 2, sy = 1\<rparr>, \<lparr>sx = 3, sy = 1\<rparr>, \<lparr>sx = 1, sy = 2\<rparr>, \<lparr>sx = 2, sy = 2\<rparr>,
      \<lparr>sx = 4, sy = 2\<rparr>, \<lparr>sx = 6, sy = 2\<rparr>, \<lparr>sx = 1, sy = 3\<rparr>, \<lparr>sx = 6, sy = 3\<rparr>,
      \<lparr>sx = 0, sy = 4\<rparr>, \<lparr>sx = 5, sy = 4\<rparr>, \<lparr>sx = 7, sy = 4\<rparr>, \<lparr>sx = 2, sy = 5\<rparr>,
      \<lparr>sx = 7, sy = 5\<rparr>, \<lparr>sx = 2, sy = 6\<rparr>, \<lparr>sx = 3, sy = 6\<rparr>, \<lparr>sx = 4, sy = 6\<rparr>,
      \<lparr>sx = 6, sy = 6\<rparr>] \<and>
   orderScore gnuEnv busyPosition PLAYER_BLACK True \<lparr>sx = 6, sy = 2\<rparr> = 13 \<and>
   orderScore gnuEnv busyPosition PLAYER_BLACK True \<lparr>sx = 6, sy = 3\<rparr> = 13 \<and>
   map_option (map move)
     (gnu_sort (map (scoreMove gnuEnv busyPosition PLAYER_BLACK True) (getValidMoves busyPosition)))
     = Some (orderMoves gnuEnv busyPosition (getValidMoves busyPosition) PLAYER_BLACK True) \<and>
   orderMoves gnuEnv busyPosition (getValidMoves busyPosition) PLAYER_BLACK True =
     [\<lparr>sx = 7, sy = 5\<rparr>, \<lparr>sx = 2, sy = 2\<rparr>, \<lparr>sx = 5, sy = 4\<rparr>, \<lparr>sx = 1, sy = 2\<rparr>,
      \<lparr>sx = 0, sy = 4\<rparr>, \<lparr>sx = 7, sy = 4\<rparr>, \<lparr>sx = 1, sy = 3\<rparr>, \<lparr>sx = 2, sy = 5\<rparr>,
      \<lparr>sx = 4, sy = 2\<rparr>, \<lparr>sx = 2, sy = 1\<rparr>, \<lparr>sx = 3, sy = 1\<rparr>, \<lparr>sx = 6, sy = 3\<rparr>,
      \<lparr>sx = 6, sy = 2\<rparr>, \<lparr>sx = 2, sy = 6\<rparr>, \<lparr>sx = 3, sy = 6\<rparr>, \<lparr>sx = 4, sy = 6\<rparr>,
      \<lparr>sx = 6, sy = 6\<rparr>]"
proof -
  have s: "orderScore gnuEnv busyPosition PLAYER_BLACK True mv
      = orderScore exampleEnv busyPosition PLAYER_BLACK True mv" for mv
    by (simp add: gnuEnv_def orderScore_tieFirst)
  have "orderScore gnuEnv busyPosition PLAYER_BLACK True \<lparr>sx = 6, sy = 2\<rparr> = 13"
    "orderScore gnuEnv busyPosition PLAYER_BLACK True \<lparr>sx = 6, sy = 3\<rparr> = 13"
    using busyPosition_scores_2 by (simp_all add: s)
  moreover have "map (scoreMove gnuEnv busyPosition PLAYER_BLACK True) (getValidMoves busyPosition)
      = busyScored"
    using busyPosition_scored by (simp add: scoreMove_gnuEnv)
  moreover have "map move busySorted =
     [\<lparr>sx = 7, sy = 5\<rparr>, \<lparr>sx = 2, sy = 2\<rparr>, \<lparr>sx = 5, sy = 4\<rparr>, \<lparr>sx = 1, sy = 2\<rparr>,
      \<lparr>sx = 0, sy = 4\<rparr>, \<lparr>sx = 7, sy = 4\<rparr>, \<lparr>sx = 1, sy = 3\<rparr>, \<lparr>sx = 2, sy = 5\<rparr>,
      \<lparr>sx = 4, sy = 2\<rparr>, \<lparr>sx = 2, sy = 1\<rparr>, \<lparr>sx = 3, sy = 1\<rparr>, \<lparr>sx = 6, sy = 3\<rparr>,
      \<lparr>sx = 6, sy = 2\<rparr>, \<lparr>sx = 2, sy = 6\<rparr>, \<lparr>sx = 3, sy = 6\<rparr>, \<lparr>sx = 4, sy = 6\<rparr>,
      \<lparr>sx = 6, sy = 6\<rparr>]"
    by (simp add: busySorted_def)
  ultimately show ?thesis
    using busyPosition_reachable busyPosition_moves busyPosition_ordered gnu_sort_busyScored
    by simp
qed

text \<open>
  Claim C6, amended. The move orderer returns a permutation of the candidate moves in
  descending order of their scores. Moves of equal score keep their original order when
  the library's sort puts an element before its equivalents; otherwise their order is the
  one \<open>std::sort\<close> leaves.
\<close>

theorem orderMoves_sorted_permutation:
  "mset (orderMoves env model moves aiPlayer maximizing) = mset moves \<and>
   sorted_wrt (\<lambda>a b. orderScore env model aiPlayer maximizing a \<ge> orderScore env model aiPlayer maximizing b)
     (orderMoves env model moves aiPlayer maximizing) \<and>
   (tieFirst env = (\<lambda>a b. True) \<longrightarrow>
      (\<forall>k. filter (\<lambda>mv. orderScore env model aiPlayer maximizing mv = k)
              (orderMoves env model moves aiPlayer maximizing)
          = filter (\<lambda>mv. orderScore env model aiPlayer maximizing mv = k) moves))"
  using mset_orderMoves sorted_orderMoves orderMoves_stable by blast

theorem orderMoves_sorted_permutation_witness:
  "mset (orderMoves exampleEnv initialPosition (getValidMoves initialPosition) PLAYER_BLACK True)
     = mset (getValidMoves initialPosition) \<and>
   sorted_wrt (\<lambda>a b. orderScore exampleEnv initialPosition PLAYER_BLACK True a
                   \<ge> orderScore exampleEnv initialPosition PLAYER_BLACK True b)
     (orderMoves exampleEnv initialPosition (getValidMoves initialPosition) PLAYER_BLACK True) \<and>
   filter (\<lambda>mv. orderScore exampleEnv initialPosition PLAYER_BLACK True mv = 2)
     (orderMoves exampleEnv initialPosition (getValidMoves initialPosition) PLAYER_BLACK True)
     = filter (\<lambda>mv. orderScore exampleEnv initialPosition PLAYER_BLACK True mv = 2)
         (getValidMoves initialPosition) \<and>
   orderMoves exampleEnv initialPosition (getValidMoves initialPosition) PLAYER_BLACK True =
     [\<lparr>sx = 3, sy = 2\<rparr>, \<lparr>sx = 2, sy = 3\<rparr>, \<lparr>sx = 5, sy = 4\<rparr>, \<lparr>sx = 4, sy = 5\<rparr>]"
proof -
  have tie: "tieFirst exampleEnv = (\<lambda>a b. True)" by (simp add: exampleEnv_def)
  have "orderMoves exampleEnv initialPosition (getValidMoves initialPosition) PLAYER_BLACK True =
      [\<lparr>sx = 3, sy = 2\<rparr>, \<lparr>sx = 2, sy = 3\<rparr>, \<lparr>sx = 5, sy = 4\<rparr>, \<lparr>sx = 4, sy = 5\<rparr>]"
    using initialPosition_scores
    by (simp add: initialPosition_moves orderMoves_by_scores tie std_sort_def ScoredMove_less_def)
  then show ?thesis
    using orderMoves_sorted_permutation [of exampleEnv initialPosition "getValidMoves initialPosition"
        PLAYER_BLACK True] tie
    by blast
qed

section \<open>Alpha-beta against exhaustive minimax\<close>

text \<open>
  What a search with a window owes the exact value: at or below \<open>alpha\<close> its result is an
  upper bound of the exact value, at or above \<open>beta\<close> a lower bound, and strictly inside
  the window it is the exact value.
\<close>

definition failSoft :: "int \<Rightarrow> int \<Rightarrow> int \<Rightarrow> int \<Rightarrow> bool" where
  "failSoft alpha beta exact v \<longleftrightarrow>
     (v \<le> alpha \<longrightarrow> exact \<le> v) \<and> (alpha < v \<and> v < beta \<longrightarrow> v = exact) \<and> (beta \<le> v \<longrightarrow> v \<le> exact)"

lemma failSoft_refl: "failSoft alpha beta v v"
  by (simp add: failSoft_def)

text \<open>One turn of the loops of \<open>minimax\<close>: the running maximum and the running minimum.\<close>

definition maxStep :: "(Square \<Rightarrow> int) \<Rightarrow> int \<Rightarrow> Square \<Rightarrow> int" where
  "maxStep g acc mv = (if g mv > acc then g mv else acc)"

definition minStep :: "(Square \<Rightarrow> int) \<Rightarrow> int \<Rightarrow> Square \<Rightarrow> int" where
  "minStep g acc mv = (if g mv < acc then g mv else acc)"

lemma maxStep_max: "maxStep g acc mv = max acc (g mv)"
  by (simp add: maxStep_def max_def)

lemma minStep_min: "minStep g acc mv = min acc (g mv)"
  by (simp add: minStep_def min_def)

lemma foldl_maxStep: "foldl (maxStep g) acc moves = Max (insert acc (g ` set moves))"
proof (induction moves arbitrary: acc)
  case Nil
  then show ?case by simp
next
  case (Cons mv moves)
  have "Max (insert (max acc (g mv)) (g ` set moves)) = Max (insert acc (insert (g mv) (g ` set moves)))"
    by (cases "set moves = {}") (simp_all add: max.assoc)
  then show ?case using Cons by (simp add: maxStep_max)
qed

lemma foldl_minStep: "foldl (minStep g) acc moves = Min (insert acc (g ` set moves))"
proof (induction moves arbitrary: acc)
  case Nil
  then show ?case by simp
next
  case (Cons mv moves)
  have "Min (insert (min acc (g mv)) (g ` set moves)) = Min (insert acc (insert (g mv) (g ` set moves)))"
    by (cases "set moves = {}") (simp_all add: min.assoc)
  then show ?case using Cons by (simp add: minStep_min)
qed

lemma foldl_maxStep_ge: "acc \<le> foldl (maxStep g) acc moves"
  and foldl_maxStep_ge_member: "mv \<in> set moves \<Longrightarrow> g mv \<le> foldl (maxStep g) acc moves"
  by (simp_all add: foldl_maxStep)

lemma foldl_minStep_le: "foldl (minStep g) acc moves \<le> acc"
  and foldl_minStep_le_member: "mv \<in> set moves \<Longrightarrow> foldl (minStep g) acc moves \<le> g mv"
  by (simp_all add: foldl_minStep)

lemma foldl_maxStep_mono: "a \<le> b \<Longrightarrow> foldl (maxStep g) a moves \<le> foldl (maxStep g) b moves"
  by (induction moves arbitrary: a b) (auto simp: maxStep_max)

text \<open>The node counter grows with every call.\<close>

lemma alphabeta_maxLoop_counter:
  assumes "\<And>mv a b n. mv \<in> set moves \<Longrightarrow> n \<le> snd (child mv a b n)"
  shows "nodes \<le> snd (alphabeta_maxLoop child moves alpha beta maxEval nodes)"
  using assms
proof (induction moves arbitrary: alpha maxEval nodes)
  case Nil
  then show ?case by simp
next
  case (Cons mv moves)
  obtain eval nodes' where c: "child mv alpha beta nodes = (eval, nodes')" by (cases "child mv alpha beta nodes")
  have 1: "nodes \<le> nodes'" using Cons.prems [of mv nodes alpha beta] c by simp
  have 2: "nodes' \<le> snd (alphabeta_maxLoop child moves a beta m nodes')" for a m
    by (rule Cons.IH) (simp add: Cons.prems)
  show ?case using 1 2 by (auto simp: c Let_def intro: order_trans)
qed

lemma alphabeta_minLoop_counter:
  assumes "\<And>mv a b n. mv \<in> set moves \<Longrightarrow> n \<le> snd (child mv a b n)"
  shows "nodes \<le> snd (alphabeta_minLoop child moves alpha beta minEval nodes)"
  using assms
proof (induction moves arbitrary: beta minEval nodes)
  case Nil
  then show ?case by simp
next
  case (Cons mv moves)
  obtain eval nodes' where c: "child mv alpha beta nodes = (eval, nodes')" by (cases "child mv alpha beta nodes")
  have 1: "nodes \<le> nodes'" using Cons.prems [of mv nodes alpha beta] c by simp
  have 2: "nodes' \<le> snd (alphabeta_minLoop child moves alpha b m nodes')" for b m
    by (rule Cons.IH) (simp add: Cons.prems)
  show ?case using 1 2 by (auto simp: c Let_def intro: order_trans)
qed

lemma alphabeta_counter_grows:
  "nodesExplored < snd (alphabeta env model depth alpha beta maximizingPlayer aiPlayer nodesExplored)"
proof (induction env model depth alpha beta maximizingPlayer aiPlayer nodesExplored rule: alphabeta.induct)
  case (1 env model depth alpha beta maximizingPlayer aiPlayer nodesExplored)
  let ?n = "nodesExplored + 1"
  let ?vm = "getValidMoves model"
  let ?vm' = "if 1 < length ?vm then orderMoves env model ?vm aiPlayer maximizingPlayer else ?vm"
  let ?child = "\<lambda>m mv a b n. alphabeta env (simulateMove env model mv (uninitialized env)) (depth - 1) a b m aiPlayer n"
  show ?case
  proof (cases "MAX_NODES \<le> ?n \<or> depth = 0 \<or> gameOver model")
    case True
    then show ?thesis by (subst alphabeta.simps) (auto simp: Let_def)
  next
    case go: False
    show ?thesis
    proof (cases "length ?vm = 0")
      case True
      let ?new = "swapPlayer (copyBoard model (uninitialized env))"
      show ?thesis
      proof (cases "length (getValidMoves ?new) = 0")
        case True
        then show ?thesis using go \<open>length ?vm = 0\<close> by (subst alphabeta.simps) (simp add: Let_def)
      next
        case False
        have "?n < snd (alphabeta env ?new (depth - 1) alpha beta (\<not> maximizingPlayer) aiPlayer ?n)"
          using go \<open>length ?vm = 0\<close> False by (intro "1.IH"(1) [OF refl _ _ refl _ refl refl]) auto
        then show ?thesis using go \<open>length ?vm = 0\<close> False
          by (subst alphabeta.simps) (simp add: Let_def)
      qed
    next
      case moves: False
      show ?thesis
      proof (cases maximizingPlayer)
        case True
        have "n \<le> snd (?child False mv a b n)" if "mv \<in> set ?vm'" for mv a b n
          using go moves True that
          by (intro less_imp_le "1.IH"(2) [OF refl _ _ refl _ refl]) auto
        then have "?n \<le> snd (alphabeta_maxLoop (?child False) ?vm' alpha beta INT_MIN ?n)"
          by (rule alphabeta_maxLoop_counter)
        then show ?thesis using go moves True
          by (subst alphabeta.simps) (simp add: Let_def)
      next
        case False
        have "n \<le> snd (?child True mv a b n)" if "mv \<in> set ?vm'" for mv a b n
          using go moves False that
          by (intro less_imp_le "1.IH"(3) [OF refl _ _ refl _ refl]) auto
        then have "?n \<le> snd (alphabeta_minLoop (?child True) ?vm' alpha beta INT_MAX ?n)"
          by (rule alphabeta_minLoop_counter)
        then show ?thesis using go moves False
          by (subst alphabeta.simps) (simp add: Let_def)
      qed
    qed
  qed
qed


lemma alphabeta_maxLoop_failSoft:
  assumes child: "\<And>mv a n. mv \<in> set moves \<Longrightarrow> alpha \<le> a \<Longrightarrow> a < beta \<Longrightarrow>
            snd (child mv a beta n) < B \<Longrightarrow> failSoft a beta (g mv) (fst (child mv a beta n))"
    and grows: "\<And>mv a b n. mv \<in> set moves \<Longrightarrow> n \<le> snd (child mv a b n)"
    and "a = max alpha M" and "M \<le> alpha \<longrightarrow> Mstar \<le> M" and "alpha < M \<longrightarrow> Mstar = M"
    and "a < beta"
    and "snd (alphabeta_maxLoop child moves a beta M n) < B"
  shows "failSoft alpha beta (foldl (maxStep g) Mstar moves)
           (fst (alphabeta_maxLoop child moves a beta M n))"
  using assms
proof (induction moves arbitrary: a M Mstar n)
  case Nil
  then show ?case by (auto simp: failSoft_def)
next
  case (Cons mv moves)
  obtain v n' where c: "child mv a beta n = (v, n')" by (cases "child mv a beta n")
  let ?M' = "if v > M then v else M"
  let ?a' = "if v > a then v else a"
  have n': "n' < B"
  proof (cases "beta \<le> ?a'")
    case True
    then show ?thesis using Cons.prems(7) by (simp add: c Let_def)
  next
    case False
    have "n' \<le> snd (alphabeta_maxLoop child moves ?a' beta ?M' n')"
      by (rule alphabeta_maxLoop_counter) (simp add: Cons.prems(2))
    then show ?thesis using Cons.prems(7) False by (simp add: c Let_def)
  qed
  have "alpha \<le> a" using Cons.prems(3) by simp
  moreover have "snd (child mv a beta n) < B" using n' by (simp add: c)
  ultimately have "failSoft a beta (g mv) (fst (child mv a beta n))"
    using Cons.prems(6) by (intro Cons.prems(1)) simp_all
  then have fs: "failSoft a beta (g mv) v" by (simp add: c)
  show ?case
  proof (cases "beta \<le> ?a'")
    case True
    have res: "fst (alphabeta_maxLoop child (mv # moves) a beta M n) = ?M'"
      using True by (simp add: c Let_def)
    have "g mv \<le> foldl (maxStep g) Mstar (mv # moves)"
      by (rule foldl_maxStep_ge_member) simp
    then have "failSoft alpha beta (foldl (maxStep g) Mstar (mv # moves)) ?M'"
      using True fs Cons.prems(3,6)
      by (auto simp: failSoft_def split: if_splits)
    then show ?thesis by (simp only: res)
  next
    case False
    have res: "alphabeta_maxLoop child (mv # moves) a beta M n
        = alphabeta_maxLoop child moves ?a' beta ?M' n'"
      using False by (simp add: c Let_def)
    have "failSoft alpha beta (foldl (maxStep g) (maxStep g Mstar mv) moves)
            (fst (alphabeta_maxLoop child moves ?a' beta ?M' n'))"
    proof (rule Cons.IH)
      show "?a' = max alpha ?M'" using Cons.prems(3) by auto
      show "?M' \<le> alpha \<longrightarrow> maxStep g Mstar mv \<le> ?M'"
        using fs Cons.prems(3,4,5) by (auto simp: failSoft_def maxStep_def split: if_splits)
      show "alpha < ?M' \<longrightarrow> maxStep g Mstar mv = ?M'"
        using fs Cons.prems(3,4,5) False by (auto simp: failSoft_def maxStep_def split: if_splits)
      show "?a' < beta" using False by simp
      show "snd (alphabeta_maxLoop child moves ?a' beta ?M' n') < B"
        using Cons.prems(7) by (simp only: res)
    qed (use Cons.prems(1,2) in auto)
    then show ?thesis by (simp only: res foldl_Cons)
  qed
qed


lemma alphabeta_minLoop_failSoft:
  assumes child: "\<And>mv b n. mv \<in> set moves \<Longrightarrow> b \<le> beta \<Longrightarrow> alpha < b \<Longrightarrow>
            snd (child mv alpha b n) < B \<Longrightarrow> failSoft alpha b (g mv) (fst (child mv alpha b n))"
    and grows: "\<And>mv a b n. mv \<in> set moves \<Longrightarrow> n \<le> snd (child mv a b n)"
    and "b = min beta M" and "beta \<le> M \<longrightarrow> M \<le> Mstar" and "M < beta \<longrightarrow> Mstar = M"
    and "alpha < b"
    and "snd (alphabeta_minLoop child moves alpha b M n) < B"
  shows "failSoft alpha beta (foldl (minStep g) Mstar moves)
           (fst (alphabeta_minLoop child moves alpha b M n))"
  using assms
proof (induction moves arbitrary: b M Mstar n)
  case Nil
  then show ?case by (auto simp: failSoft_def)
next
  case (Cons mv moves)
  obtain v n' where c: "child mv alpha b n = (v, n')" by (cases "child mv alpha b n")
  let ?M' = "if v < M then v else M"
  let ?b' = "if v < b then v else b"
  have n': "n' < B"
  proof (cases "?b' \<le> alpha")
    case True
    then show ?thesis using Cons.prems(7) by (simp add: c Let_def)
  next
    case False
    have "n' \<le> snd (alphabeta_minLoop child moves alpha ?b' ?M' n')"
      by (rule alphabeta_minLoop_counter) (simp add: Cons.prems(2))
    then show ?thesis using Cons.prems(7) False by (simp add: c Let_def)
  qed
  have "b \<le> beta" using Cons.prems(3) by simp
  moreover have "snd (child mv alpha b n) < B" using n' by (simp add: c)
  ultimately have "failSoft alpha b (g mv) (fst (child mv alpha b n))"
    using Cons.prems(6) by (intro Cons.prems(1)) simp_all
  then have fs: "failSoft alpha b (g mv) v" by (simp add: c)
  show ?case
  proof (cases "?b' \<le> alpha")
    case True
    have res: "fst (alphabeta_minLoop child (mv # moves) alpha b M n) = ?M'"
      using True by (simp add: c Let_def)
    have "foldl (minStep g) Mstar (mv # moves) \<le> g mv"
      by (rule foldl_minStep_le_member) simp
    then have "failSoft alpha beta (foldl (minStep g) Mstar (mv # moves)) ?M'"
      using True fs Cons.prems(3,6)
      by (auto simp: failSoft_def split: if_splits)
    then show ?thesis by (simp only: res)
  next
    case False
    have res: "alphabeta_minLoop child (mv # moves) alpha b M n
        = alphabeta_minLoop child moves alpha ?b' ?M' n'"
      using False by (simp add: c Let_def)
    have "failSoft alpha beta (foldl (minStep g) (minStep g Mstar mv) moves)
            (fst (alphabeta_minLoop child moves alpha ?b' ?M' n'))"
    proof (rule Cons.IH)
      show "?b' = min beta ?M'" using Cons.prems(3) by auto
      show "beta \<le> ?M' \<longrightarrow> ?M' \<le> minStep g Mstar mv"
        using fs Cons.prems(3,4,5) by (auto simp: failSoft_def minStep_def split: if_splits)
      show "?M' < beta \<longrightarrow> minStep g Mstar mv = ?M'"
        using fs Cons.prems(3,4,5) False by (auto simp: failSoft_def minStep_def split: if_splits)
      show "alpha < ?b'" using False by simp
      show "snd (alphabeta_minLoop child moves alpha ?b' ?M' n') < B"
        using Cons.prems(7) by (simp only: res)
    qed (use Cons.prems(1,2) in auto)
    then show ?thesis by (simp only: res foldl_Cons)
  qed
qed


lemma minimax_moves:
  assumes "depth \<noteq> 0" and "\<not> gameOver model" and "getValidMoves model \<noteq> []"
  shows "minimax ev env model depth maximizingPlayer aiPlayer =
     (if maximizingPlayer
      then foldl (maxStep (\<lambda>mv. minimax ev env (simulateMove env model mv (uninitialized env))
                                (depth - 1) False aiPlayer)) INT_MIN (getValidMoves model)
      else foldl (minStep (\<lambda>mv. minimax ev env (simulateMove env model mv (uninitialized env))
                                (depth - 1) True aiPlayer)) INT_MAX (getValidMoves model))"
proof -
  have 1: "(\<lambda>maxEval mv. let eval = g mv in if eval > maxEval then eval else maxEval) = maxStep g"
    for g :: "Square \<Rightarrow> int"
    by (intro ext) (simp add: maxStep_def)
  have 2: "(\<lambda>minEval mv. let eval = g mv in if eval < minEval then eval else minEval) = minStep g"
    for g :: "Square \<Rightarrow> int"
    by (intro ext) (simp add: minStep_def)
  show ?thesis
    using assms by (subst minimax.simps) (simp add: 1 2 del: Let_def)
qed

lemma minimax_leaf:
  "depth = 0 \<or> gameOver model \<Longrightarrow> minimax ev env model depth maximizingPlayer aiPlayer = ev model aiPlayer"
  by (subst minimax.simps) simp

lemma minimax_pass:
  assumes "depth \<noteq> 0" and "\<not> gameOver model" and "getValidMoves model = []"
  shows "minimax ev env model depth maximizingPlayer aiPlayer =
     (let newModel = swapPlayer (copyBoard model (uninitialized env)) in
      if getValidMoves newModel = [] then ev (newModel\<lparr>gameOver := True\<rparr>) aiPlayer
      else minimax ev env newModel (depth - 1) (\<not> maximizingPlayer) aiPlayer)"
  using assms by (subst minimax.simps) (simp add: Let_def)

lemma alphabeta_leaf:
  "MAX_NODES \<le> nodesExplored + 1 \<or> depth = 0 \<or> gameOver model \<Longrightarrow>
   alphabeta env model depth alpha beta maximizingPlayer aiPlayer nodesExplored
     = (evaluate env model aiPlayer, nodesExplored + 1)"
  by (subst alphabeta.simps) (auto simp: Let_def)

lemma alphabeta_passes:
  assumes "nodesExplored + 1 < MAX_NODES" and "depth \<noteq> 0" and "\<not> gameOver model"
    and "getValidMoves model = []"
  shows "alphabeta env model depth alpha beta maximizingPlayer aiPlayer nodesExplored =
     (let newModel = swapPlayer (copyBoard model (uninitialized env)) in
      if getValidMoves newModel = []
      then (evaluate env (newModel\<lparr>gameOver := True\<rparr>) aiPlayer, nodesExplored + 1)
      else alphabeta env newModel (depth - 1) alpha beta (\<not> maximizingPlayer) aiPlayer
             (nodesExplored + 1))"
  using assms by (subst alphabeta.simps) (simp add: Let_def)

lemma alphabeta_moves:
  assumes "nodesExplored + 1 < MAX_NODES" and "depth \<noteq> 0" and "\<not> gameOver model"
    and "getValidMoves model \<noteq> []"
  shows "alphabeta env model depth alpha beta maximizingPlayer aiPlayer nodesExplored =
     (let validMoves' = (if length (getValidMoves model) > 1
                         then orderMoves env model (getValidMoves model) aiPlayer maximizingPlayer
                         else getValidMoves model)
      in if maximizingPlayer then
           alphabeta_maxLoop
             (\<lambda>mv a b n. alphabeta env (simulateMove env model mv (uninitialized env))
                           (depth - 1) a b False aiPlayer n)
             validMoves' alpha beta INT_MIN (nodesExplored + 1)
         else
           alphabeta_minLoop
             (\<lambda>mv a b n. alphabeta env (simulateMove env model mv (uninitialized env))
                           (depth - 1) a b True aiPlayer n)
             validMoves' alpha beta INT_MAX (nodesExplored + 1))"
  using assms by (subst alphabeta.simps) (simp add: Let_def)


lemma alphabeta_failSoft:
  "snd (alphabeta env model depth alpha beta maximizingPlayer aiPlayer nodesExplored) < MAX_NODES \<Longrightarrow>
   INT_MIN \<le> alpha \<Longrightarrow> alpha < beta \<Longrightarrow> beta \<le> INT_MAX \<Longrightarrow>
   failSoft alpha beta (minimax (evaluate env) env model depth maximizingPlayer aiPlayer)
     (fst (alphabeta env model depth alpha beta maximizingPlayer aiPlayer nodesExplored))"
proof (induction env model depth alpha beta maximizingPlayer aiPlayer nodesExplored rule: alphabeta.induct)
  case (1 env model depth alpha beta maximizingPlayer aiPlayer nodesExplored)
  let ?n = "nodesExplored + 1"
  let ?vm = "getValidMoves model"
  let ?vm' = "if 1 < length ?vm then orderMoves env model ?vm aiPlayer maximizingPlayer else ?vm"
  let ?child = "\<lambda>m mv a b n. alphabeta env (simulateMove env model mv (uninitialized env)) (depth - 1) a b m aiPlayer n"
  let ?exact = "\<lambda>m mv. minimax (evaluate env) env (simulateMove env model mv (uninitialized env)) (depth - 1) m aiPlayer"
  note budget = "1.prems"(1)
  have below: "?n < MAX_NODES"
  proof (rule ccontr)
    assume "\<not> ?n < MAX_NODES"
    then have "snd (alphabeta env model depth alpha beta maximizingPlayer aiPlayer nodesExplored) = ?n"
      by (simp add: alphabeta_leaf)
    then show False using budget \<open>\<not> ?n < MAX_NODES\<close> by simp
  qed
  show ?case
  proof (cases "depth = 0 \<or> gameOver model")
    case True
    then show ?thesis by (simp add: alphabeta_leaf minimax_leaf failSoft_refl)
  next
    case go: False
    then have go': "depth \<noteq> 0" "\<not> gameOver model" by auto
    show ?thesis
    proof (cases "?vm = []")
      case True
      let ?new = "swapPlayer (copyBoard model (uninitialized env))"
      note ab = alphabeta_passes [OF below go' True, of env alpha beta maximizingPlayer aiPlayer]
      note mm = minimax_pass [OF go' True, of "evaluate env" env maximizingPlayer aiPlayer]
      show ?thesis
      proof (cases "getValidMoves ?new = []")
        case True
        then show ?thesis by (simp add: ab mm Let_def failSoft_refl)
      next
        case False
        have ab': "alphabeta env model depth alpha beta maximizingPlayer aiPlayer nodesExplored
            = alphabeta env ?new (depth - 1) alpha beta (\<not> maximizingPlayer) aiPlayer ?n"
          using False by (simp add: ab Let_def)
        have "failSoft alpha beta (minimax (evaluate env) env ?new (depth - 1) (\<not> maximizingPlayer) aiPlayer)
            (fst (alphabeta env ?new (depth - 1) alpha beta (\<not> maximizingPlayer) aiPlayer ?n))"
        proof (rule "1.IH"(1) [OF refl _ go refl _ refl refl])
          show "\<not> MAX_NODES \<le> ?n" using below by simp
          show "length ?vm = 0" using True by simp
          show "length (getValidMoves ?new) \<noteq> 0" using False by simp
          show "snd (alphabeta env ?new (depth - 1) alpha beta (\<not> maximizingPlayer) aiPlayer ?n) < MAX_NODES"
            using budget by (simp only: ab')
        qed (use "1.prems" in auto)
        then show ?thesis using False by (simp add: ab' mm Let_def)
      qed
    next
      case moves: False
      have set': "set (if 1 < length ?vm then orderMoves env model ?vm aiPlayer m else ?vm) = set ?vm"
        for m by (simp add: set_orderMoves)
      note ab = alphabeta_moves [OF below go' moves, of env alpha beta maximizingPlayer aiPlayer]
      note mm = minimax_moves [OF go' moves, of "evaluate env" env maximizingPlayer aiPlayer]
      show ?thesis
      proof (cases maximizingPlayer)
        case True
        have ab': "alphabeta env model depth alpha beta maximizingPlayer aiPlayer nodesExplored
            = alphabeta_maxLoop (?child False) ?vm' alpha beta INT_MIN ?n"
          unfolding ab Let_def using True by simp
        have mm': "minimax (evaluate env) env model depth maximizingPlayer aiPlayer
            = foldl (maxStep (?exact False)) INT_MIN ?vm'"
          unfolding mm using True by (simp only: foldl_maxStep set' if_True)
        have "failSoft alpha beta (foldl (maxStep (?exact False)) INT_MIN ?vm')
            (fst (alphabeta_maxLoop (?child False) ?vm' alpha beta INT_MIN ?n))"
        proof (rule alphabeta_maxLoop_failSoft [where B = MAX_NODES])
          fix mv a n
          assume "mv \<in> set ?vm'" "alpha \<le> a" "a < beta" "snd (?child False mv a beta n) < MAX_NODES"
          then show "failSoft a beta (?exact False mv) (fst (?child False mv a beta n))"
            using below go moves True "1.prems"(2,4)
            by (intro "1.IH"(2) [OF refl _ _ refl _ refl]) auto
        next
          fix mv a b n
          show "n \<le> snd (?child False mv a b n)"
            by (rule less_imp_le) (rule alphabeta_counter_grows)
        next
          show "snd (alphabeta_maxLoop (?child False) ?vm' alpha beta INT_MIN ?n) < MAX_NODES"
            using budget by (simp only: ab')
        qed (use "1.prems" in auto)
        then show ?thesis by (simp only: ab' mm')
      next
        case False
        have ab': "alphabeta env model depth alpha beta maximizingPlayer aiPlayer nodesExplored
            = alphabeta_minLoop (?child True) ?vm' alpha beta INT_MAX ?n"
          unfolding ab Let_def using False by simp
        have mm': "minimax (evaluate env) env model depth maximizingPlayer aiPlayer
            = foldl (minStep (?exact True)) INT_MAX ?vm'"
          unfolding mm using False by (simp only: foldl_minStep set' if_False)
        have "failSoft alpha beta (foldl (minStep (?exact True)) INT_MAX ?vm')
            (fst (alphabeta_minLoop (?child True) ?vm' alpha beta INT_MAX ?n))"
        proof (rule alphabeta_minLoop_failSoft [where B = MAX_NODES])
          fix mv b n
          assume "mv \<in> set ?vm'" "b \<le> beta" "alpha < b" "snd (?child True mv alpha b n) < MAX_NODES"
          then show "failSoft alpha b (?exact True mv) (fst (?child True mv alpha b n))"
            using below go moves False "1.prems"(2,4)
            by (intro "1.IH"(3) [OF refl _ _ refl _ refl]) auto
        next
          fix mv a b n
          show "n \<le> snd (?child True mv a b n)"
            by (rule less_imp_le) (rule alphabeta_counter_grows)
        next
          show "snd (alphabeta_minLoop (?child True) ?vm' alpha beta INT_MAX ?n) < MAX_NODES"
            using budget by (simp only: ab')
        qed (use "1.prems" in auto)
        then show ?thesis by (simp only: ab' mm')
      qed
    qed
  qed
qed

subsection \<open>The evaluation stays far inside the range of an int\<close>

lemma sum_list_abs_bound:
  assumes "\<And>x. x \<in> set xs \<Longrightarrow> \<bar>f x\<bar> \<le> (c::int)"
  shows "\<bar>sum_list (map f xs)\<bar> \<le> int (length xs) * c"
  using assms
proof (induction xs)
  case Nil
  then show ?case by simp
next
  case (Cons x xs)
  have "\<bar>f x\<bar> \<le> c" "\<bar>sum_list (map f xs)\<bar> \<le> int (length xs) * c"
    using Cons by auto
  then show ?case by (simp add: algebra_simps)
qed

lemma weights_bound: "list_all (\<lambda>sq. \<bar>POSITION_WEIGHTS ! nat (sy sq) ! nat (sx sq)\<bar> \<le> 100) allSquares"
  by code_simp

lemma positionalValue_bound: "\<bar>positionalValue model player\<bar> \<le> 6400"
proof -
  have "\<bar>positionalValue model player\<bar> \<le> int (length allSquares) * 100"
    unfolding positionalValue_def
    by (rule sum_list_abs_bound) (use weights_bound in \<open>auto simp: list_all_iff\<close>)
  then show ?thesis by (simp add: length_allSquares)
qed

lemma stabilityValue_bound: "\<bar>stabilityValue model player\<bar> \<le> 320"
proof -
  have "\<bar>stabilityValue model player\<bar> \<le> int (length allSquares) * 5"
    unfolding stabilityValue_def
    by (rule sum_list_abs_bound) auto
  then show ?thesis by (simp add: length_allSquares)
qed

lemma length_getValidMoves: "length (getValidMoves model) \<le> 64"
  unfolding getValidMoves_def using length_filter_le [of _ allSquares] by (simp add: length_allSquares)

lemma mobilityValue_bound: "\<bar>mobilityValue env model player\<bar> \<le> 262"
proof -
  let ?t = "(uninitialized env)\<lparr>board := board model, gameOver := False\<rparr>"
  have "length (getValidMoves (?t\<lparr>currentPlayer := player\<rparr>)) \<le> 64"
    "length (getValidMoves (?t\<lparr>currentPlayer := otherPlayer player\<rparr>)) \<le> 64"
    by (rule length_getValidMoves)+
  then show ?thesis
    unfolding mobilityValue_def mobilityOf_def Let_def by (auto simp: abs_if)
qed

lemma parityValue_bound: "\<bar>parityValue model player\<bar> \<le> 10"
  by (simp add: parityValue_def Let_def)

lemma getScore_bound: "0 \<le> getScore model player" "getScore model player \<le> 64"
  unfolding getScore_def using length_filter_le [of _ allSquares] by (simp_all add: length_allSquares)

lemma sdiv_2_bound: "\<bar>k sdiv 2\<bar> \<le> \<bar>k::int\<bar>"
proof -
  have "\<bar>k\<bar> div 2 \<le> \<bar>k\<bar>" by simp
  moreover have "\<bar>k sdiv 2\<bar> = \<bar>k\<bar> div 2"
    by (simp add: signed_divide_int_def abs_mult sgn_if)
  ultimately show ?thesis by simp
qed

lemma pieceValue_bound: "\<bar>pieceValue model player\<bar> \<le> 320"
proof -
  let ?d = "getScore model player - getScore model (otherPlayer player)"
  have d: "\<bar>?d\<bar> \<le> 64"
    using getScore_bound [of model player] getScore_bound [of model "otherPlayer player"] by auto
  then have "\<bar>?d sdiv 2\<bar> \<le> 64" using sdiv_2_bound [of ?d] by linarith
  then show ?thesis using d unfolding pieceValue_def Let_def by auto
qed

lemma evaluate_bound: "\<bar>evaluate env model player\<bar> \<le> 7312"
  using positionalValue_bound [of model player] mobilityValue_bound [of env model player]
    stabilityValue_bound [of model player] parityValue_bound [of model player]
    pieceValue_bound [of model player]
  unfolding evaluate_def by linarith

lemma evaluate_int_range: "INT_MIN < evaluate env model player" "evaluate env model player < INT_MAX"
  using evaluate_bound [of env model player] by (auto simp: INT_MIN_def INT_MAX_def)

subsection \<open>The full window gives the exact value\<close>

lemma foldl_maxStep_range:
  assumes "\<And>mv. mv \<in> set moves \<Longrightarrow> lo \<le> g mv \<and> g mv \<le> hi" and "lo \<le> acc" and "acc \<le> hi"
  shows "lo \<le> foldl (maxStep g) acc moves \<and> foldl (maxStep g) acc moves \<le> hi"
  using assms by (induction moves arbitrary: acc) (auto simp: maxStep_def)

lemma foldl_minStep_range:
  assumes "\<And>mv. mv \<in> set moves \<Longrightarrow> lo \<le> g mv \<and> g mv \<le> hi" and "lo \<le> acc" and "acc \<le> hi"
  shows "lo \<le> foldl (minStep g) acc moves \<and> foldl (minStep g) acc moves \<le> hi"
  using assms by (induction moves arbitrary: acc) (auto simp: minStep_def)

lemma int_range: "INT_MIN \<le> INT_MAX"
  by (simp add: INT_MIN_def INT_MAX_def)

lemma minimax_int_range:
  "(\<And>m p. INT_MIN \<le> ev m p \<and> ev m p \<le> INT_MAX) \<Longrightarrow>
   INT_MIN \<le> minimax ev env model depth maximizingPlayer aiPlayer \<and>
   minimax ev env model depth maximizingPlayer aiPlayer \<le> INT_MAX"
proof (induction ev env model depth maximizingPlayer aiPlayer rule: minimax.induct)
  case (1 ev env model depth maximizingPlayer aiPlayer)
  note ev = "1.prems"
  let ?vm = "getValidMoves model"
  let ?exact = "\<lambda>m mv. minimax ev env (simulateMove env model mv (uninitialized env)) (depth - 1) m aiPlayer"
  show ?case
  proof (cases "depth = 0 \<or> gameOver model")
    case True
    then show ?thesis using ev by (simp add: minimax_leaf)
  next
    case go: False
    then have go': "depth \<noteq> 0" "\<not> gameOver model" by auto
    show ?thesis
    proof (cases "?vm = []")
      case True
      let ?new = "swapPlayer (copyBoard model (uninitialized env))"
      note mm = minimax_pass [OF go' True, of ev env maximizingPlayer aiPlayer]
      show ?thesis
      proof (cases "getValidMoves ?new = []")
        case True
        then show ?thesis using ev by (simp add: mm Let_def)
      next
        case False
        have "INT_MIN \<le> minimax ev env ?new (depth - 1) (\<not> maximizingPlayer) aiPlayer \<and>
              minimax ev env ?new (depth - 1) (\<not> maximizingPlayer) aiPlayer \<le> INT_MAX"
          using True False by (intro "1.IH"(1) [OF go refl _ refl refl] ev) auto
        then show ?thesis using False by (simp add: mm Let_def)
      qed
    next
      case moves: False
      note mm = minimax_moves [OF go' moves, of ev env maximizingPlayer aiPlayer]
      show ?thesis
      proof (cases maximizingPlayer)
        case True
        have "INT_MIN \<le> ?exact False mv \<and> ?exact False mv \<le> INT_MAX" if "mv \<in> set ?vm" for mv
          using moves True that by (intro "1.IH"(2) [OF go refl] ev) auto
        then have "INT_MIN \<le> foldl (maxStep (?exact False)) INT_MIN ?vm \<and>
                   foldl (maxStep (?exact False)) INT_MIN ?vm \<le> INT_MAX"
          by (intro foldl_maxStep_range) (auto simp: int_range)
        then show ?thesis unfolding mm using True by simp
      next
        case False
        have "INT_MIN \<le> ?exact True mv \<and> ?exact True mv \<le> INT_MAX" if "mv \<in> set ?vm" for mv
          using moves False that by (intro "1.IH"(3) [OF go refl] ev) auto
        then have "INT_MIN \<le> foldl (minStep (?exact True)) INT_MAX ?vm \<and>
                   foldl (minStep (?exact True)) INT_MAX ?vm \<le> INT_MAX"
          by (intro foldl_minStep_range) (auto simp: int_range)
        then show ?thesis unfolding mm using False by simp
      qed
    qed
  qed
qed

text \<open>
  Claim C1. For every state, depth and perspective player: when the node budget is not
  reached during the search, that is, when the node counter is below the budget after
  the search (the counter only grows), \<open>alphabeta\<close> with the window from \<open>INT_MIN\<close> to
  \<open>INT_MAX\<close>, move ordering included, returns the value of the exhaustive \<open>minimax\<close>
  over the same tree with the same evaluation.
\<close>

theorem alphabeta_minimax:
  assumes "snd (alphabeta env model depth INT_MIN INT_MAX maximizingPlayer aiPlayer nodesExplored) < MAX_NODES"
  shows "fst (alphabeta env model depth INT_MIN INT_MAX maximizingPlayer aiPlayer nodesExplored)
       = minimax (evaluate env) env model depth maximizingPlayer aiPlayer"
proof -
  let ?v = "fst (alphabeta env model depth INT_MIN INT_MAX maximizingPlayer aiPlayer nodesExplored)"
  let ?mm = "minimax (evaluate env) env model depth maximizingPlayer aiPlayer"
  have "INT_MIN \<le> evaluate env m p \<and> evaluate env m p \<le> INT_MAX" for m p
    using evaluate_int_range [of env m p] by simp
  then have range: "INT_MIN \<le> ?mm \<and> ?mm \<le> INT_MAX"
    by (rule minimax_int_range)
  have "INT_MIN < INT_MAX" by (simp add: INT_MIN_def INT_MAX_def)
  then have "failSoft INT_MIN INT_MAX ?mm ?v"
    using assms by (intro alphabeta_failSoft) simp_all
  then show ?thesis using range unfolding failSoft_def by linarith
qed


lemma initialPosition_ordered:
  "orderMoves exampleEnv initialPosition (getValidMoves initialPosition) PLAYER_BLACK True =
     [\<lparr>sx = 3, sy = 2\<rparr>, \<lparr>sx = 2, sy = 3\<rparr>, \<lparr>sx = 5, sy = 4\<rparr>, \<lparr>sx = 4, sy = 5\<rparr>]"
  using initialPosition_scores
  by (simp add: initialPosition_moves orderMoves_by_scores exampleEnv_def std_sort_def ScoredMove_less_def)

lemma initialPosition_leaves:
  "mv \<in> set (getValidMoves initialPosition) \<Longrightarrow>
   evaluate exampleEnv (simulateMove exampleEnv initialPosition mv (uninitialized exampleEnv)) PLAYER_BLACK = 2"
  using initialPosition_scores by (auto simp: initialPosition_moves orderScore_def Let_def)

lemma initialPosition_search:
  "alphabeta exampleEnv initialPosition 1 INT_MIN INT_MAX True PLAYER_BLACK 0 = (2, 5)"
proof -
  have 1: "(0::int) + 1 < MAX_NODES" by (simp add: MAX_NODES_def)
  have 2: "(1::int) \<noteq> 0" by simp
  have 3: "\<not> gameOver initialPosition" by (simp add: initialPosition_def startModel_def)
  have 4: "getValidMoves initialPosition \<noteq> []" by (simp add: initialPosition_moves)
  have leaf: "alphabeta exampleEnv (simulateMove exampleEnv initialPosition mv (uninitialized exampleEnv))
      0 a b False PLAYER_BLACK n = (2, n + 1)"
    if "mv \<in> set (getValidMoves initialPosition)" for mv a b n
    using that by (simp add: alphabeta_leaf initialPosition_leaves)
  show ?thesis
    unfolding alphabeta_moves [OF 1 2 3 4] Let_def initialPosition_ordered
    by (simp add: initialPosition_moves leaf initialPosition_ordered [unfolded initialPosition_moves]
        INT_MIN_def INT_MAX_def)
qed

theorem alphabeta_minimax_witness:
  "alphabeta exampleEnv initialPosition 1 INT_MIN INT_MAX True PLAYER_BLACK 0 = (2, 5) \<and>
   (5::int) < MAX_NODES \<and>
   minimax (evaluate exampleEnv) exampleEnv initialPosition 1 True PLAYER_BLACK = 2"
proof -
  have "snd (alphabeta exampleEnv initialPosition 1 INT_MIN INT_MAX True PLAYER_BLACK 0) < MAX_NODES"
    by (simp add: initialPosition_search MAX_NODES_def)
  from alphabeta_minimax [OF this] show ?thesis
    by (simp add: initialPosition_search MAX_NODES_def)
qed

section \<open>The node budget\<close>

subsection \<open>The basic variant of ai.cpp: alpha-beta without move ordering\<close>

text \<open>
  The starter directory's ai.cpp holds an earlier \<open>alphabeta\<close> with a budget of 100000
  nodes, its own \<open>evaluate\<close> (piece difference, corners, mobility) and no move ordering.
  Its names carry the suffix \<open>_basic\<close> here.
\<close>

definition MAX_NODES_basic :: int where
  "MAX_NODES_basic = 100000"

definition corners :: "Square list" where
  "corners = [\<lparr>sx = 0, sy = 0\<rparr>, \<lparr>sx = 0, sy = BOARD_SIZE - 1\<rparr>,
              \<lparr>sx = BOARD_SIZE - 1, sy = 0\<rparr>, \<lparr>sx = BOARD_SIZE - 1, sy = BOARD_SIZE - 1\<rparr>]"

definition evaluate_basic :: "Env \<Rightarrow> GameModel \<Rightarrow> Player \<Rightarrow> int" where
  "evaluate_basic env model player =
     (let opponent = otherPlayer player;
          scoreDiff = getScore model player - getScore model opponent;
          cornerValue = (\<Sum>corner\<leftarrow>corners.
             if getBoardPiece model corner = pieceOf player then 25
             else if getBoardPiece model corner = opponentPieceOf player then - 25
             else 0);
          tempModel = (uninitialized env)\<lparr>board := board model\<rparr>;
          playerMoves = getValidMoves (tempModel\<lparr>currentPlayer := player, gameOver := False\<rparr>);
          opponentMoves = getValidMoves (tempModel\<lparr>currentPlayer := opponent, gameOver := False\<rparr>);
          mobilityValue = int (length playerMoves) - int (length opponentMoves)
      in scoreDiff + cornerValue + mobilityValue * 2)"

function alphabeta_basic ::
  "Env \<Rightarrow> GameModel \<Rightarrow> int \<Rightarrow> int \<Rightarrow> int \<Rightarrow> bool \<Rightarrow> Player \<Rightarrow> int \<Rightarrow> int \<times> int" where
  "alphabeta_basic env model depth alpha beta maximizingPlayer aiPlayer nodesExplored =
     (let nodes = nodesExplored + 1 in
      if nodes \<ge> MAX_NODES_basic then (evaluate_basic env model aiPlayer, nodes)
      else if depth = 0 \<or> gameOver model then (evaluate_basic env model aiPlayer, nodes)
      else
        (let validMoves = getValidMoves model in
         if length validMoves = 0 then
           (let newModel = swapPlayer (copyBoard model (uninitialized env));
                opponentMoves = getValidMoves newModel
            in if length opponentMoves = 0
               then (evaluate_basic env (newModel\<lparr>gameOver := True\<rparr>) aiPlayer, nodes)
               else alphabeta_basic env newModel (depth - 1) alpha beta (\<not> maximizingPlayer) aiPlayer nodes)
         else if maximizingPlayer then
           alphabeta_maxLoop
             (\<lambda>mv a b n. alphabeta_basic env (simulateMove env model mv (uninitialized env))
                           (depth - 1) a b False aiPlayer n)
             validMoves alpha beta INT_MIN nodes
         else
           alphabeta_minLoop
             (\<lambda>mv a b n. alphabeta_basic env (simulateMove env model mv (uninitialized env))
                           (depth - 1) a b True aiPlayer n)
             validMoves alpha beta INT_MAX nodes))"
  by pat_completeness auto
termination
proof (relation "measure (\<lambda>(env, model, depth, alpha, beta, maximizingPlayer, aiPlayer, nodes).
      2 * emptySquares model + (if getValidMoves model = [] then 1 else 0))", goal_cases)
  case 1
  show ?case by simp
next
  case (2 env model depth alpha beta maximizingPlayer aiPlayer nodesExplored nodes validMoves newModel opponentMoves)
  have e: "emptySquares newModel = emptySquares model"
    unfolding 2(6) by (rule emptySquares_cong) (simp add: copyBoard_def)
  have a: "getValidMoves model = []" using 2(4,5) by simp
  have b: "getValidMoves newModel \<noteq> []" using 2(7,8) by auto
  show ?case using a b e by simp
next
  case (3 env model depth alpha beta maximizingPlayer aiPlayer nodesExplored nodes validMoves mv a b n)
  have "mv \<in> set (getValidMoves model)"
    using \<open>mv \<in> set validMoves\<close> unfolding \<open>validMoves = _\<close> .
  from emptySquares_simulateMove [OF this, of env "uninitialized env"]
  show ?case by simp
next
  case (4 env model depth alpha beta maximizingPlayer aiPlayer nodesExplored nodes validMoves mv a b n)
  have "mv \<in> set (getValidMoves model)"
    using \<open>mv \<in> set validMoves\<close> unfolding \<open>validMoves = _\<close> .
  from emptySquares_simulateMove [OF this, of env "uninitialized env"]
  show ?case by simp
qed

declare alphabeta_basic.simps [simp del]



subsection \<open>How far the counter can pass the budget\<close>

lemma alphabeta_maxLoop_bound:
  assumes "\<And>mv a b n. mv \<in> set moves \<Longrightarrow> snd (child mv a b n) \<le> max (n + 1) K"
  shows "snd (alphabeta_maxLoop child moves alpha beta maxEval nodes) \<le> max nodes K + int (length moves)"
  using assms
proof (induction moves arbitrary: alpha maxEval nodes)
  case Nil
  then show ?case by simp
next
  case (Cons mv moves)
  obtain eval nodes' where c: "child mv alpha beta nodes = (eval, nodes')" by (cases "child mv alpha beta nodes")
  have 1: "nodes' \<le> max (nodes + 1) K" using Cons.prems [of mv alpha beta nodes] c by simp
  have 2: "snd (alphabeta_maxLoop child moves a beta m nodes') \<le> max nodes' K + int (length moves)" for a m
    by (rule Cons.IH) (simp add: Cons.prems)
  show ?case
  proof (cases "beta \<le> (if eval > alpha then eval else alpha)")
    case True
    then show ?thesis using 1 by (simp add: c Let_def)
  next
    case False
    then show ?thesis
      using 1 2 [of "if eval > alpha then eval else alpha" "if eval > maxEval then eval else maxEval"]
      by (simp add: c Let_def)
  qed
qed

lemma alphabeta_minLoop_bound:
  assumes "\<And>mv a b n. mv \<in> set moves \<Longrightarrow> snd (child mv a b n) \<le> max (n + 1) K"
  shows "snd (alphabeta_minLoop child moves alpha beta minEval nodes) \<le> max nodes K + int (length moves)"
  using assms
proof (induction moves arbitrary: beta minEval nodes)
  case Nil
  then show ?case by simp
next
  case (Cons mv moves)
  obtain eval nodes' where c: "child mv alpha beta nodes = (eval, nodes')" by (cases "child mv alpha beta nodes")
  have 1: "nodes' \<le> max (nodes + 1) K" using Cons.prems [of mv alpha beta nodes] c by simp
  have 2: "snd (alphabeta_minLoop child moves alpha b m nodes') \<le> max nodes' K + int (length moves)" for b m
    by (rule Cons.IH) (simp add: Cons.prems)
  show ?case
  proof (cases "(if eval < beta then eval else beta) \<le> alpha")
    case True
    then show ?thesis using 1 by (simp add: c Let_def)
  next
    case False
    then show ?thesis
      using 1 2 [of "if eval < beta then eval else beta" "if eval < minEval then eval else minEval"]
      by (simp add: c Let_def)
  qed
qed

lemma alphabeta_counter_bound:
  "0 \<le> depth \<Longrightarrow>
   snd (alphabeta env model depth alpha beta maximizingPlayer aiPlayer nodesExplored)
     \<le> max (nodesExplored + 1) (MAX_NODES + 64 * depth)"
proof (induction env model depth alpha beta maximizingPlayer aiPlayer nodesExplored rule: alphabeta.induct)
  case (1 env model depth alpha beta maximizingPlayer aiPlayer nodesExplored)
  let ?n = "nodesExplored + 1"
  let ?vm = "getValidMoves model"
  let ?vm' = "if 1 < length ?vm then orderMoves env model ?vm aiPlayer maximizingPlayer else ?vm"
  let ?child = "\<lambda>m mv a b n. alphabeta env (simulateMove env model mv (uninitialized env)) (depth - 1) a b m aiPlayer n"
  let ?K = "MAX_NODES + 64 * (depth - 1)"
  show ?case
  proof (cases "MAX_NODES \<le> ?n \<or> depth = 0 \<or> gameOver model")
    case True
    then show ?thesis by (simp add: alphabeta_leaf)
  next
    case False
    then have below: "?n < MAX_NODES" and go: "\<not> (depth = 0 \<or> gameOver model)"
      and go': "depth \<noteq> 0" "\<not> gameOver model" and d: "0 \<le> depth - 1"
      using "1.prems" by auto
    show ?thesis
    proof (cases "?vm = []")
      case True
      let ?new = "swapPlayer (copyBoard model (uninitialized env))"
      note ab = alphabeta_passes [OF below go' True, of env alpha beta maximizingPlayer aiPlayer]
      show ?thesis
      proof (cases "getValidMoves ?new = []")
        case True
        then show ?thesis by (simp add: ab Let_def)
      next
        case False
        have "snd (alphabeta env ?new (depth - 1) alpha beta (\<not> maximizingPlayer) aiPlayer ?n)
            \<le> max (?n + 1) ?K"
          using below True False d by (intro "1.IH"(1) [OF refl _ go refl _ refl refl]) auto
        then show ?thesis using False below d by (simp add: ab Let_def)
      qed
    next
      case moves: False
      have len: "int (length ?vm') \<le> 64"
        using length_getValidMoves [of model] mset_orderMoves [of env model ?vm aiPlayer maximizingPlayer, THEN arg_cong, of size]
        by simp
      note ab = alphabeta_moves [OF below go' moves, of env alpha beta maximizingPlayer aiPlayer]
      show ?thesis
      proof (cases maximizingPlayer)
        case True
        have ab': "alphabeta env model depth alpha beta maximizingPlayer aiPlayer nodesExplored
            = alphabeta_maxLoop (?child False) ?vm' alpha beta INT_MIN ?n"
          unfolding ab Let_def using True by simp
        have "snd (?child False mv a b n) \<le> max (n + 1) ?K" if "mv \<in> set ?vm'" for mv a b n
          using below go moves True that d by (intro "1.IH"(2) [OF refl _ _ refl _ refl]) auto
        then have "snd (alphabeta_maxLoop (?child False) ?vm' alpha beta INT_MIN ?n)
            \<le> max ?n ?K + int (length ?vm')"
          by (rule alphabeta_maxLoop_bound)
        then show ?thesis using len below d unfolding ab' by simp
      next
        case False
        have ab': "alphabeta env model depth alpha beta maximizingPlayer aiPlayer nodesExplored
            = alphabeta_minLoop (?child True) ?vm' alpha beta INT_MAX ?n"
          unfolding ab Let_def using False by simp
        have "snd (?child True mv a b n) \<le> max (n + 1) ?K" if "mv \<in> set ?vm'" for mv a b n
          using below go moves False that d by (intro "1.IH"(3) [OF refl _ _ refl _ refl]) auto
        then have "snd (alphabeta_minLoop (?child True) ?vm' alpha beta INT_MAX ?n)
            \<le> max ?n ?K + int (length ?vm')"
          by (rule alphabeta_minLoop_bound)
        then show ?thesis using len below d unfolding ab' by simp
      qed
    qed
  qed
qed


lemma alphabeta_basic_leaf:
  "MAX_NODES_basic \<le> nodesExplored + 1 \<or> depth = 0 \<or> gameOver model \<Longrightarrow>
   alphabeta_basic env model depth alpha beta maximizingPlayer aiPlayer nodesExplored
     = (evaluate_basic env model aiPlayer, nodesExplored + 1)"
  by (subst alphabeta_basic.simps) (auto simp: Let_def)

lemma alphabeta_basic_passes:
  assumes "nodesExplored + 1 < MAX_NODES_basic" and "depth \<noteq> 0" and "\<not> gameOver model"
    and "getValidMoves model = []"
  shows "alphabeta_basic env model depth alpha beta maximizingPlayer aiPlayer nodesExplored =
     (let newModel = swapPlayer (copyBoard model (uninitialized env)) in
      if getValidMoves newModel = []
      then (evaluate_basic env (newModel\<lparr>gameOver := True\<rparr>) aiPlayer, nodesExplored + 1)
      else alphabeta_basic env newModel (depth - 1) alpha beta (\<not> maximizingPlayer) aiPlayer
             (nodesExplored + 1))"
  using assms by (subst alphabeta_basic.simps) (simp add: Let_def)

lemma alphabeta_basic_moves:
  assumes "nodesExplored + 1 < MAX_NODES_basic" and "depth \<noteq> 0" and "\<not> gameOver model"
    and "getValidMoves model \<noteq> []"
  shows "alphabeta_basic env model depth alpha beta maximizingPlayer aiPlayer nodesExplored =
     (if maximizingPlayer then
        alphabeta_maxLoop
          (\<lambda>mv a b n. alphabeta_basic env (simulateMove env model mv (uninitialized env))
                        (depth - 1) a b False aiPlayer n)
          (getValidMoves model) alpha beta INT_MIN (nodesExplored + 1)
      else
        alphabeta_minLoop
          (\<lambda>mv a b n. alphabeta_basic env (simulateMove env model mv (uninitialized env))
                        (depth - 1) a b True aiPlayer n)
          (getValidMoves model) alpha beta INT_MAX (nodesExplored + 1))"
  using assms by (subst alphabeta_basic.simps) (simp add: Let_def)

lemma alphabeta_basic_counter_grows:
  "nodesExplored < snd (alphabeta_basic env model depth alpha beta maximizingPlayer aiPlayer nodesExplored)"
proof (induction env model depth alpha beta maximizingPlayer aiPlayer nodesExplored
    rule: alphabeta_basic.induct)
  case (1 env model depth alpha beta maximizingPlayer aiPlayer nodesExplored)
  let ?n = "nodesExplored + 1"
  let ?vm = "getValidMoves model"
  let ?child = "\<lambda>m mv a b n. alphabeta_basic env (simulateMove env model mv (uninitialized env)) (depth - 1) a b m aiPlayer n"
  show ?case
  proof (cases "MAX_NODES_basic \<le> ?n \<or> depth = 0 \<or> gameOver model")
    case True
    then show ?thesis by (simp add: alphabeta_basic_leaf)
  next
    case False
    then have below: "?n < MAX_NODES_basic" and go: "\<not> (depth = 0 \<or> gameOver model)"
      and go': "depth \<noteq> 0" "\<not> gameOver model"
      by auto
    show ?thesis
    proof (cases "?vm = []")
      case True
      let ?new = "swapPlayer (copyBoard model (uninitialized env))"
      note ab = alphabeta_basic_passes [OF below go' True, of env alpha beta maximizingPlayer aiPlayer]
      show ?thesis
      proof (cases "getValidMoves ?new = []")
        case True
        then show ?thesis by (simp add: ab Let_def)
      next
        case False
        have "?n < snd (alphabeta_basic env ?new (depth - 1) alpha beta (\<not> maximizingPlayer) aiPlayer ?n)"
          using below True False by (intro "1.IH"(1) [OF refl _ go refl _ refl refl]) auto
        then show ?thesis using False by (simp add: ab Let_def)
      qed
    next
      case moves: False
      note ab = alphabeta_basic_moves [OF below go' moves, of env alpha beta maximizingPlayer aiPlayer]
      show ?thesis
      proof (cases maximizingPlayer)
        case True
        have "n \<le> snd (?child False mv a b n)" if "mv \<in> set ?vm" for mv a b n
          using below go moves True that
          by (intro less_imp_le "1.IH"(2) [OF refl _ _ refl]) auto
        then have "?n \<le> snd (alphabeta_maxLoop (?child False) ?vm alpha beta INT_MIN ?n)"
          by (rule alphabeta_maxLoop_counter)
        then show ?thesis unfolding ab using True by simp
      next
        case False
        have "n \<le> snd (?child True mv a b n)" if "mv \<in> set ?vm" for mv a b n
          using below go moves False that
          by (intro less_imp_le "1.IH"(3) [OF refl _ _ refl]) auto
        then have "?n \<le> snd (alphabeta_minLoop (?child True) ?vm alpha beta INT_MAX ?n)"
          by (rule alphabeta_minLoop_counter)
        then show ?thesis unfolding ab using False by simp
      qed
    qed
  qed
qed

lemma alphabeta_basic_counter_bound:
  "0 \<le> depth \<Longrightarrow>
   snd (alphabeta_basic env model depth alpha beta maximizingPlayer aiPlayer nodesExplored)
     \<le> max (nodesExplored + 1) (MAX_NODES_basic + 64 * depth)"
proof (induction env model depth alpha beta maximizingPlayer aiPlayer nodesExplored
    rule: alphabeta_basic.induct)
  case (1 env model depth alpha beta maximizingPlayer aiPlayer nodesExplored)
  let ?n = "nodesExplored + 1"
  let ?vm = "getValidMoves model"
  let ?child = "\<lambda>m mv a b n. alphabeta_basic env (simulateMove env model mv (uninitialized env)) (depth - 1) a b m aiPlayer n"
  let ?K = "MAX_NODES_basic + 64 * (depth - 1)"
  show ?case
  proof (cases "MAX_NODES_basic \<le> ?n \<or> depth = 0 \<or> gameOver model")
    case True
    then show ?thesis by (simp add: alphabeta_basic_leaf)
  next
    case False
    then have below: "?n < MAX_NODES_basic" and go: "\<not> (depth = 0 \<or> gameOver model)"
      and go': "depth \<noteq> 0" "\<not> gameOver model" and d: "0 \<le> depth - 1"
      using "1.prems" by auto
    show ?thesis
    proof (cases "?vm = []")
      case True
      let ?new = "swapPlayer (copyBoard model (uninitialized env))"
      note ab = alphabeta_basic_passes [OF below go' True, of env alpha beta maximizingPlayer aiPlayer]
      show ?thesis
      proof (cases "getValidMoves ?new = []")
        case True
        then show ?thesis by (simp add: ab Let_def)
      next
        case False
        have "snd (alphabeta_basic env ?new (depth - 1) alpha beta (\<not> maximizingPlayer) aiPlayer ?n)
            \<le> max (?n + 1) ?K"
          using below True False d by (intro "1.IH"(1) [OF refl _ go refl _ refl refl]) auto
        then show ?thesis using False below d by (simp add: ab Let_def)
      qed
    next
      case moves: False
      have len: "int (length ?vm) \<le> 64"
        using length_getValidMoves [of model] by simp
      note ab = alphabeta_basic_moves [OF below go' moves, of env alpha beta maximizingPlayer aiPlayer]
      show ?thesis
      proof (cases maximizingPlayer)
        case True
        have "snd (?child False mv a b n) \<le> max (n + 1) ?K" if "mv \<in> set ?vm" for mv a b n
          using below go moves True that d by (intro "1.IH"(2) [OF refl _ _ refl]) auto
        then have "snd (alphabeta_maxLoop (?child False) ?vm alpha beta INT_MIN ?n)
            \<le> max ?n ?K + int (length ?vm)"
          by (rule alphabeta_maxLoop_bound)
        then show ?thesis using len below d True unfolding ab by simp
      next
        case False
        have "snd (?child True mv a b n) \<le> max (n + 1) ?K" if "mv \<in> set ?vm" for mv a b n
          using below go moves False that d by (intro "1.IH"(3) [OF refl _ _ refl]) auto
        then have "snd (alphabeta_minLoop (?child True) ?vm alpha beta INT_MAX ?n)
            \<le> max ?n ?K + int (length ?vm)"
          by (rule alphabeta_minLoop_bound)
        then show ?thesis using len below d False unfolding ab by simp
      qed
    qed
  qed
qed


text \<open>
  A position with eight legal moves for Black, to move: a black piece with a white piece
  on each of its eight neighbours.
\<close>

definition starPosition :: GameModel where
  "starPosition = exampleLocal\<lparr>board := emptyBoard
     (2 := (emptyBoard 2)(2 := PIECE_WHITE, 3 := PIECE_WHITE, 4 := PIECE_WHITE),
      3 := (emptyBoard 3)(2 := PIECE_WHITE, 3 := PIECE_BLACK, 4 := PIECE_WHITE),
      4 := (emptyBoard 4)(2 := PIECE_WHITE, 3 := PIECE_WHITE, 4 := PIECE_WHITE))\<rparr>"

lemma starPosition_moves:
  "getValidMoves starPosition =
     [\<lparr>sx = 1, sy = 1\<rparr>, \<lparr>sx = 3, sy = 1\<rparr>, \<lparr>sx = 5, sy = 1\<rparr>, \<lparr>sx = 1, sy = 3\<rparr>,
      \<lparr>sx = 5, sy = 3\<rparr>, \<lparr>sx = 1, sy = 5\<rparr>, \<lparr>sx = 3, sy = 5\<rparr>, \<lparr>sx = 5, sy = 5\<rparr>]"
  by code_simp

lemma alphabeta_maxLoop_no_cut:
  assumes "\<And>mv a n. mv \<in> set moves \<Longrightarrow> n0 \<le> n \<Longrightarrow>
             snd (child mv a beta n) = n + 1 \<and> fst (child mv a beta n) < beta"
    and "alpha < beta" and "n0 \<le> nodes"
  shows "snd (alphabeta_maxLoop child moves alpha beta maxEval nodes) = nodes + int (length moves)"
  using assms
proof (induction moves arbitrary: alpha maxEval nodes)
  case Nil
  then show ?case by simp
next
  case (Cons mv moves)
  obtain eval nodes' where c: "child mv alpha beta nodes = (eval, nodes')" by (cases "child mv alpha beta nodes")
  have 1: "nodes' = nodes + 1" "eval < beta"
    using Cons.prems(1) [of mv nodes alpha] Cons.prems(3) c by auto
  let ?a' = "if eval > alpha then eval else alpha"
  have 2: "?a' < beta" using 1 Cons.prems(2) by simp
  have "snd (alphabeta_maxLoop child moves ?a' beta m nodes') = nodes' + int (length moves)" for m
    using 1 2 Cons.prems(3) by (intro Cons.IH) (auto simp: Cons.prems(1))
  then show ?case using 1 2 by (simp add: c Let_def)
qed

text \<open>
  Claim C4 ends: the counter never exceeds the budget plus the calls already in flight.
  A search of depth 1 has at most two calls of \<open>alphabeta\<close> in flight. Entered two nodes
  below the budget on the position above, it meets the budget in its first child, still
  tries the seven other moves, each call adding one, and leaves the counter seven above
  the budget.
\<close>

theorem node_counter_counterexample:
  "snd (alphabeta exampleEnv starPosition 1 INT_MIN INT_MAX True PLAYER_BLACK (MAX_NODES - 2))
     = MAX_NODES + 7"
proof -
  let ?vm = "getValidMoves starPosition"
  let ?vm' = "if 1 < length ?vm then orderMoves exampleEnv starPosition ?vm PLAYER_BLACK True else ?vm"
  let ?child = "\<lambda>mv a b n. alphabeta exampleEnv
      (simulateMove exampleEnv starPosition mv (uninitialized exampleEnv)) (1 - 1) a b False PLAYER_BLACK n"
  have 1: "MAX_NODES - 2 + 1 < MAX_NODES" by simp
  have 2: "(1::int) \<noteq> 0" by simp
  have 3: "\<not> gameOver starPosition" by (simp add: starPosition_def exampleLocal_def)
  have 4: "?vm \<noteq> []" by (simp add: starPosition_moves)
  have len: "length ?vm' = 8"
    using mset_orderMoves [of exampleEnv starPosition ?vm PLAYER_BLACK True, THEN arg_cong, of size]
    by (simp add: starPosition_moves)
  have "snd (alphabeta_maxLoop ?child ?vm' INT_MIN INT_MAX INT_MIN (MAX_NODES - 2 + 1))
      = MAX_NODES - 2 + 1 + int (length ?vm')"
  proof (rule alphabeta_maxLoop_no_cut [where ?n0.0 = "MAX_NODES - 1"])
    fix mv a n
    assume "MAX_NODES - 1 \<le> n"
    then have "?child mv a INT_MAX n
        = (evaluate exampleEnv (simulateMove exampleEnv starPosition mv (uninitialized exampleEnv)) PLAYER_BLACK, n + 1)"
      by (intro alphabeta_leaf) simp
    then show "snd (?child mv a INT_MAX n) = n + 1 \<and> fst (?child mv a INT_MAX n) < INT_MAX"
      by (simp add: evaluate_int_range)
  qed (simp_all add: INT_MIN_def INT_MAX_def)
  then show ?thesis
    unfolding alphabeta_moves [OF 1 2 3 4] Let_def len by simp
qed


text \<open>
  Claim C4, amended. In both variants (budget 500000 and 100000) every call of
  \<open>alphabeta\<close> adds at least one to the node counter; a call that finds the counter at
  the budget or one below it returns the evaluation of its state with the counter one
  higher, whatever the depth, the terminal flag and the moves are; and a call with a
  depth \<open>d\<close> that is not negative leaves the counter at most at the larger of the counter
  at entry plus one and the budget plus 64 times \<open>d\<close>: past the budget the counter grows
  by one for every move the calls in flight still try.
\<close>

theorem node_counter:
  "nodesExplored + 1 \<le> snd (alphabeta env model depth alpha beta maximizingPlayer aiPlayer nodesExplored) \<and>
   (MAX_NODES \<le> nodesExplored + 1 \<longrightarrow>
      alphabeta env model depth alpha beta maximizingPlayer aiPlayer nodesExplored
        = (evaluate env model aiPlayer, nodesExplored + 1)) \<and>
   (0 \<le> depth \<longrightarrow>
      snd (alphabeta env model depth alpha beta maximizingPlayer aiPlayer nodesExplored)
        \<le> max (nodesExplored + 1) (MAX_NODES + 64 * depth)) \<and>
   MAX_NODES = 500000 \<and>
   nodesExplored + 1 \<le> snd (alphabeta_basic env model depth alpha beta maximizingPlayer aiPlayer nodesExplored) \<and>
   (MAX_NODES_basic \<le> nodesExplored + 1 \<longrightarrow>
      alphabeta_basic env model depth alpha beta maximizingPlayer aiPlayer nodesExplored
        = (evaluate_basic env model aiPlayer, nodesExplored + 1)) \<and>
   (0 \<le> depth \<longrightarrow>
      snd (alphabeta_basic env model depth alpha beta maximizingPlayer aiPlayer nodesExplored)
        \<le> max (nodesExplored + 1) (MAX_NODES_basic + 64 * depth)) \<and>
   MAX_NODES_basic = 100000"
proof -
  have "nodesExplored + 1 \<le> snd (alphabeta env model depth alpha beta maximizingPlayer aiPlayer nodesExplored)"
    using alphabeta_counter_grows [of nodesExplored env model depth alpha beta maximizingPlayer aiPlayer]
    by simp
  moreover have "nodesExplored + 1
      \<le> snd (alphabeta_basic env model depth alpha beta maximizingPlayer aiPlayer nodesExplored)"
    using alphabeta_basic_counter_grows [of nodesExplored env model depth alpha beta maximizingPlayer aiPlayer]
    by simp
  ultimately show ?thesis
    using alphabeta_counter_bound [of depth env model alpha beta maximizingPlayer aiPlayer nodesExplored]
      alphabeta_basic_counter_bound [of depth env model alpha beta maximizingPlayer aiPlayer nodesExplored]
    by (simp add: alphabeta_leaf alphabeta_basic_leaf MAX_NODES_def MAX_NODES_basic_def)
qed

theorem node_counter_witness:
  "alphabeta exampleEnv starPosition 5 INT_MIN INT_MAX True PLAYER_BLACK MAX_NODES
     = (evaluate exampleEnv starPosition PLAYER_BLACK, MAX_NODES + 1) \<and>
   snd (alphabeta exampleEnv starPosition 1 INT_MIN INT_MAX True PLAYER_BLACK (MAX_NODES - 2))
     \<le> MAX_NODES + 64 \<and>
   alphabeta_basic exampleEnv starPosition 5 INT_MIN INT_MAX True PLAYER_BLACK MAX_NODES_basic
     = (evaluate_basic exampleEnv starPosition PLAYER_BLACK, MAX_NODES_basic + 1) \<and>
   snd (alphabeta_basic exampleEnv starPosition 1 INT_MIN INT_MAX True PLAYER_BLACK (MAX_NODES_basic - 2))
     \<le> MAX_NODES_basic + 64"
  using node_counter [of MAX_NODES exampleEnv starPosition 5 INT_MIN INT_MAX True PLAYER_BLACK]
    node_counter [of "MAX_NODES - 2" exampleEnv starPosition 1 INT_MIN INT_MAX True PLAYER_BLACK]
    node_counter [of MAX_NODES_basic exampleEnv starPosition 5 INT_MIN INT_MAX True PLAYER_BLACK]
    node_counter [of "MAX_NODES_basic - 2" exampleEnv starPosition 1 INT_MIN INT_MAX True PLAYER_BLACK]
  by simp

section \<open>The caller's model during simulation and search\<close>

text \<open>
  The engine takes every \<open>GameModel\<close> by reference and keeps its copies in local
  variables. To state which objects a call writes, the models live in a store, a map
  from addresses to models. The locals of a call are allocated on a stack: a call
  entered with the stack height \<open>sp\<close> keeps its local model at address \<open>sp\<close> and enters
  its callees with a greater height, so every object of a caller lies below \<open>sp\<close>. The
  functions below are the functions of the engine with the store threaded through;
  the depth is a natural number, as \<open>getBestMove\<close> enters the search with 6, 7 or 11.
\<close>

type_synonym addr = nat

type_synonym store = "addr \<Rightarrow> GameModel"

text \<open>\<open>copyBoard\<close> writes the cells, then the player, then the flag of \<open>dest\<close>.\<close>

definition copyBoard_st :: "store \<Rightarrow> addr \<Rightarrow> addr \<Rightarrow> store" where
  "copyBoard_st st source dest =
     (let st1 = st(dest := (st dest)\<lparr>board := board (st source)\<rparr>);
          st2 = st1(dest := (st1 dest)\<lparr>currentPlayer := currentPlayer (st1 source)\<rparr>)
      in st2(dest := (st2 dest)\<lparr>gameOver := gameOver (st2 source)\<rparr>))"

text \<open>\<open>playMove\<close> updates the model it is given in place.\<close>

definition playMove_st :: "store \<Rightarrow> addr \<Rightarrow> Square \<Rightarrow> real \<Rightarrow> bool \<times> store" where
  "playMove_st st model mv currentTime =
     (fst (playMove (st model) mv currentTime), st(model := snd (playMove (st model) mv currentTime)))"

definition simulateMove_st :: "Env \<Rightarrow> store \<Rightarrow> addr \<Rightarrow> Square \<Rightarrow> addr \<Rightarrow> store" where
  "simulateMove_st env st model mv newModel =
     snd (playMove_st (copyBoard_st st model newModel) newModel mv (clock env))"

text \<open>\<open>evaluate\<close> reads \<open>model\<close> and writes its local \<open>tempModel\<close>.\<close>

definition evaluate_st :: "store \<Rightarrow> addr \<Rightarrow> addr \<Rightarrow> Player \<Rightarrow> int \<times> store" where
  "evaluate_st st sp model player =
     (let tempModel = sp;
          st1 = st(tempModel := (st tempModel)\<lparr>board := board (st model)\<rparr>);
          st2 = st1(tempModel := (st1 tempModel)\<lparr>gameOver := False\<rparr>);
          st3 = st2(tempModel := (st2 tempModel)\<lparr>currentPlayer := player\<rparr>);
          playerMoves = getValidMoves (st3 tempModel);
          st4 = st3(tempModel := (st3 tempModel)\<lparr>currentPlayer := otherPlayer player\<rparr>);
          opponentMoves = getValidMoves (st4 tempModel)
      in (positionalValue (st4 model) player
            + mobilityOf (totalPieces (st4 model)) (length playerMoves) (length opponentMoves)
            + stabilityValue (st4 model) player + parityValue (st4 model) player
            + pieceValue (st4 model) player,
          st4))"

text \<open>\<open>orderMoves\<close>: one round of its loop, with the local \<open>newModel\<close>.\<close>

definition orderMoves_step ::
  "Env \<Rightarrow> addr \<Rightarrow> addr \<Rightarrow> Player \<Rightarrow> bool \<Rightarrow> ScoredMove list \<times> store \<Rightarrow> Square \<Rightarrow> ScoredMove list \<times> store" where
  "orderMoves_step env sp model aiPlayer maximizing state mv =
     (case state of (scoredMoves, st) \<Rightarrow>
        (let newModel = sp;
             st1 = simulateMove_st env st model mv newModel
         in case evaluate_st st1 (sp + 1) newModel aiPlayer of
              (s, st2) \<Rightarrow>
                (scoredMoves @ [\<lparr>move = mv, score = (if \<not> maximizing then - s else s)\<rparr>], st2)))"

definition orderMoves_st ::
  "Env \<Rightarrow> store \<Rightarrow> addr \<Rightarrow> addr \<Rightarrow> Square list \<Rightarrow> Player \<Rightarrow> bool \<Rightarrow> Square list \<times> store" where
  "orderMoves_st env st sp model moves aiPlayer maximizing =
     (case foldl (orderMoves_step env sp model aiPlayer maximizing) ([], st) moves of
        (scoredMoves, st') \<Rightarrow> (map move (std_sort (tieFirst env) scoredMoves), st'))"

text \<open>The two loops of \<open>alphabeta\<close>, with the store handed from one child to the next.\<close>

fun maxLoop_st ::
  "(Square \<Rightarrow> int \<Rightarrow> int \<Rightarrow> int \<Rightarrow> store \<Rightarrow> int \<times> int \<times> store) \<Rightarrow> Square list \<Rightarrow> int \<Rightarrow> int \<Rightarrow> int
   \<Rightarrow> int \<Rightarrow> store \<Rightarrow> int \<times> int \<times> store" where
  "maxLoop_st child [] alpha beta maxEval nodes st = (maxEval, nodes, st)"
| "maxLoop_st child (mv # rest) alpha beta maxEval nodes st =
     (case child mv alpha beta nodes st of (eval, nodes', st') \<Rightarrow>
        (let maxEval' = (if eval > maxEval then eval else maxEval);
             alpha' = (if eval > alpha then eval else alpha)
         in if beta \<le> alpha' then (maxEval', nodes', st')
            else maxLoop_st child rest alpha' beta maxEval' nodes' st'))"

fun minLoop_st ::
  "(Square \<Rightarrow> int \<Rightarrow> int \<Rightarrow> int \<Rightarrow> store \<Rightarrow> int \<times> int \<times> store) \<Rightarrow> Square list \<Rightarrow> int \<Rightarrow> int \<Rightarrow> int
   \<Rightarrow> int \<Rightarrow> store \<Rightarrow> int \<times> int \<times> store" where
  "minLoop_st child [] alpha beta minEval nodes st = (minEval, nodes, st)"
| "minLoop_st child (mv # rest) alpha beta minEval nodes st =
     (case child mv alpha beta nodes st of (eval, nodes', st') \<Rightarrow>
        (let minEval' = (if eval < minEval then eval else minEval);
             beta' = (if eval < beta then eval else beta)
         in if beta' \<le> alpha then (minEval', nodes', st')
            else minLoop_st child rest alpha beta' minEval' nodes' st'))"

primrec alphabeta_st ::
  "nat \<Rightarrow> Env \<Rightarrow> store \<Rightarrow> addr \<Rightarrow> addr \<Rightarrow> int \<Rightarrow> int \<Rightarrow> bool \<Rightarrow> Player \<Rightarrow> int \<Rightarrow> int \<times> int \<times> store" where
  "alphabeta_st 0 env st sp model alpha beta maximizingPlayer aiPlayer nodesExplored =
     (case evaluate_st st sp model aiPlayer of (v, st') \<Rightarrow> (v, nodesExplored + 1, st'))"
| "alphabeta_st (Suc depth) env st sp model alpha beta maximizingPlayer aiPlayer nodesExplored =
     (let nodes = nodesExplored + 1 in
      if nodes \<ge> MAX_NODES \<or> gameOver (st model)
      then (case evaluate_st st sp model aiPlayer of (v, st') \<Rightarrow> (v, nodes, st'))
      else
        (let validMoves = getValidMoves (st model); newModel = sp in
         if length validMoves = 0 then
           (let st1 = copyBoard_st st model newModel;
                st2 = st1(newModel := (st1 newModel)\<lparr>currentPlayer :=
                        (if currentPlayer (st1 newModel) = PLAYER_WHITE then PLAYER_BLACK else PLAYER_WHITE)\<rparr>);
                opponentMoves = getValidMoves (st2 newModel)
            in if length opponentMoves = 0
               then (let st3 = st2(newModel := (st2 newModel)\<lparr>gameOver := True\<rparr>)
                     in case evaluate_st st3 (sp + 1) newModel aiPlayer of (v, st') \<Rightarrow> (v, nodes, st'))
               else alphabeta_st depth env st2 (sp + 1) newModel alpha beta (\<not> maximizingPlayer) aiPlayer nodes)
         else
           (case (if length validMoves > 1
                  then orderMoves_st env st sp model validMoves aiPlayer maximizingPlayer
                  else (validMoves, st)) of
              (validMoves', st0) \<Rightarrow>
                if maximizingPlayer then
                  maxLoop_st
                    (\<lambda>mv a b n s. alphabeta_st depth env (simulateMove_st env s model mv newModel)
                                    (sp + 1) newModel a b False aiPlayer n)
                    validMoves' alpha beta INT_MIN nodes st0
                else
                  minLoop_st
                    (\<lambda>mv a b n s. alphabeta_st depth env (simulateMove_st env s model mv newModel)
                                    (sp + 1) newModel a b True aiPlayer n)
                    validMoves' alpha beta INT_MAX nodes st0)))"


definition getBestMove_step_st ::
  "Env \<Rightarrow> addr \<Rightarrow> addr \<Rightarrow> int \<Rightarrow> int \<Rightarrow> Player \<Rightarrow> Square \<times> int \<times> int \<times> int \<times> store \<Rightarrow> Square
   \<Rightarrow> Square \<times> int \<times> int \<times> int \<times> store" where
  "getBestMove_step_st env sp model searchDepth beta aiPlayer state mv =
     (case state of (bestMove, bestValue, alpha, nodes, st) \<Rightarrow>
        (let newModel = sp;
             st1 = simulateMove_st env st model mv newModel
         in case alphabeta_st (nat (searchDepth - 1)) env st1 (sp + 1) newModel alpha beta False
                   aiPlayer nodes of
              (moveValue, nodes', st') \<Rightarrow>
                (if moveValue > bestValue then mv else bestMove,
                 if moveValue > bestValue then moveValue else bestValue,
                 if moveValue > alpha then moveValue else alpha,
                 nodes', st')))"

definition getBestMove_st :: "Env \<Rightarrow> store \<Rightarrow> addr \<Rightarrow> addr \<Rightarrow> int \<Rightarrow> Square \<times> int \<times> store" where
  "getBestMove_st env st sp model nodesExplored =
     (let validMoves = getValidMoves (st model) in
      if length validMoves = 0 then (GAME_INVALID_SQUARE, nodesExplored, st)
      else if length validMoves = 1 then (validMoves ! 0, nodesExplored, st)
      else
        (let searchDepth = getSearchDepth (st model);
             aiPlayer = currentPlayer (st model)
         in case orderMoves_st env st sp model validMoves aiPlayer True of
              (validMoves', st0) \<Rightarrow>
                (case foldl (getBestMove_step_st env sp model searchDepth INT_MAX aiPlayer)
                        (validMoves ! 0, INT_MIN, INT_MIN, 0, st0) validMoves' of
                   (bestMove, bestValue, alpha, nodes, st') \<Rightarrow> (bestMove, nodes, st'))))"

subsection \<open>What each function writes\<close>

lemma copyBoard_st_frame: "b \<noteq> dest \<Longrightarrow> copyBoard_st st source dest b = st b"
  by (simp add: copyBoard_st_def Let_def)

lemma copyBoard_st_dest:
  "copyBoard_st st source dest dest = copyBoard (st source) (st dest)"
  by (simp add: copyBoard_st_def copyBoard_def Let_def)

lemma simulateMove_st_frame: "b \<noteq> newModel \<Longrightarrow> simulateMove_st env st model mv newModel b = st b"
  by (simp add: simulateMove_st_def playMove_st_def copyBoard_st_frame)

lemma simulateMove_st_newModel:
  "simulateMove_st env st model mv newModel newModel = simulateMove env (st model) mv (st newModel)"
  by (simp add: simulateMove_st_def playMove_st_def simulateMove_def copyBoard_st_dest)

lemma evaluate_st_frame: "b \<noteq> sp \<Longrightarrow> snd (evaluate_st st sp model player) b = st b"
  by (simp add: evaluate_st_def Let_def)

lemma orderMoves_step_frame:
  "b < sp \<Longrightarrow> snd (orderMoves_step env sp model aiPlayer maximizing (scored, st) mv) b = st b"
  by (simp add: orderMoves_step_def Let_def split: prod.splits)
    (metis evaluate_st_frame simulateMove_st_frame snd_conv less_not_refl less_Suc_eq)

lemma orderMoves_loop_frame:
  "b < sp \<Longrightarrow> snd (foldl (orderMoves_step env sp model aiPlayer maximizing) (scored, st) moves) b = st b"
proof (induction moves arbitrary: scored st)
  case Nil
  then show ?case by simp
next
  case (Cons mv moves)
  obtain scored' st' where step: "orderMoves_step env sp model aiPlayer maximizing (scored, st) mv = (scored', st')"
    by (cases "orderMoves_step env sp model aiPlayer maximizing (scored, st) mv")
  from orderMoves_step_frame [OF Cons.prems, of env model aiPlayer maximizing scored st mv] step
  have "st' b = st b" by simp
  with Cons.IH [OF Cons.prems, of scored' st'] step show ?case by simp
qed

lemma orderMoves_st_frame:
  "b < sp \<Longrightarrow> snd (orderMoves_st env st sp model moves aiPlayer maximizing) b = st b"
  using orderMoves_loop_frame [of b sp env model aiPlayer maximizing "[]" st moves]
  by (auto simp: orderMoves_st_def split: prod.splits)

lemma maxLoop_st_frame:
  assumes "\<And>mv a b' n s. snd (snd (child mv a b' n s)) b = s b"
  shows "snd (snd (maxLoop_st child moves alpha beta maxEval nodes st)) b = st b"
proof (induction moves arbitrary: alpha maxEval nodes st)
  case Nil
  then show ?case by simp
next
  case (Cons mv moves)
  obtain eval nodes' st' where c: "child mv alpha beta nodes st = (eval, nodes', st')"
    by (cases "child mv alpha beta nodes st")
  from assms [of mv alpha beta nodes st] c have "st' b = st b" by simp
  then show ?case using c Cons.IH by (simp add: Let_def)
qed

lemma minLoop_st_frame:
  assumes "\<And>mv a b' n s. snd (snd (child mv a b' n s)) b = s b"
  shows "snd (snd (minLoop_st child moves alpha beta minEval nodes st)) b = st b"
proof (induction moves arbitrary: beta minEval nodes st)
  case Nil
  then show ?case by simp
next
  case (Cons mv moves)
  obtain eval nodes' st' where c: "child mv alpha beta nodes st = (eval, nodes', st')"
    by (cases "child mv alpha beta nodes st")
  from assms [of mv alpha beta nodes st] c have "st' b = st b" by simp
  then show ?case using c Cons.IH by (simp add: Let_def)
qed

lemma alphabeta_st_frame:
  "b < sp \<Longrightarrow>
   snd (snd (alphabeta_st depth env st sp model alpha beta maximizingPlayer aiPlayer nodesExplored)) b = st b"
proof (induction depth arbitrary: st sp model alpha beta maximizingPlayer nodesExplored)
  case 0
  then show ?case
    using evaluate_st_frame [of b sp st model aiPlayer] by (auto split: prod.splits)
next
  case (Suc depth)
  let ?nodes = "nodesExplored + 1"
  have b: "b \<noteq> sp" "b < sp + 1" "b \<noteq> sp + 1" using Suc.prems by simp_all
  show ?case
  proof (cases "?nodes \<ge> MAX_NODES \<or> gameOver (st model)")
    case True
    then show ?thesis
      using evaluate_st_frame [OF b(1), of st model aiPlayer] by (auto simp: Let_def split: prod.splits)
  next
    case False
    show ?thesis
    proof (cases "getValidMoves (st model) = []")
      case True
      let ?st1 = "copyBoard_st st model sp"
      let ?st2 = "?st1(sp := (?st1 sp)\<lparr>currentPlayer :=
                        (if currentPlayer (?st1 sp) = PLAYER_WHITE then PLAYER_BLACK else PLAYER_WHITE)\<rparr>)"
      have st2: "?st2 b = st b" using b by (simp add: copyBoard_st_frame)
      show ?thesis
      proof (cases "getValidMoves (?st2 sp) = []")
        case t: True
        let ?st3 = "?st2(sp := (?st2 sp)\<lparr>gameOver := True\<rparr>)"
        have "snd (evaluate_st ?st3 (sp + 1) sp aiPlayer) b = ?st3 b"
          by (rule evaluate_st_frame [OF b(3)])
        also have "\<dots> = st b" using b by (simp add: copyBoard_st_frame)
        finally show ?thesis
          using False True t by (auto simp: Let_def split: prod.splits)
      next
        case f: False
        have "snd (snd (alphabeta_st depth env ?st2 (sp + 1) sp alpha beta (\<not> maximizingPlayer)
                 aiPlayer ?nodes)) b = ?st2 b"
          by (rule Suc.IH [OF b(2)])
        with st2 show ?thesis
          using False True f by (simp add: Let_def)
      qed
    next
      case moves: False
      have ord: "snd (orderMoves_st env st sp model (getValidMoves (st model)) aiPlayer
                   maximizingPlayer) b = st b"
        by (rule orderMoves_st_frame [OF Suc.prems])
      have child: "snd (snd (alphabeta_st depth env (simulateMove_st env s model mv sp)
                                    (sp + 1) sp a b' mx aiPlayer n)) b = s b" for mv a b' n s mx
        using Suc.IH [OF b(2), of "simulateMove_st env s model mv sp" sp a b' mx n]
        by (simp add: simulateMove_st_frame [OF b(1)])
      have mx: "snd (snd (maxLoop_st
                    (\<lambda>mv a b n s. alphabeta_st depth env (simulateMove_st env s model mv sp)
                                    (sp + 1) sp a b False aiPlayer n)
                    vm alpha beta INT_MIN ?nodes s0)) b = s0 b" for vm s0
        by (rule maxLoop_st_frame) (rule child)
      have mn: "snd (snd (minLoop_st
                    (\<lambda>mv a b n s. alphabeta_st depth env (simulateMove_st env s model mv sp)
                                    (sp + 1) sp a b True aiPlayer n)
                    vm alpha beta INT_MAX ?nodes s0)) b = s0 b" for vm s0
        by (rule minLoop_st_frame) (rule child)
      obtain vm s0 where o: "orderMoves_st env st sp model (getValidMoves (st model)) aiPlayer
                   maximizingPlayer = (vm, s0)"
        by (cases "orderMoves_st env st sp model (getValidMoves (st model)) aiPlayer
                   maximizingPlayer")
      with ord have s0: "s0 b = st b" by simp
      show ?thesis
      proof (cases "length (getValidMoves (st model)) > 1")
        case True
        then show ?thesis
          using False moves o s0 mx [of vm s0] mn [of vm s0]
          by (cases maximizingPlayer) (simp_all add: Let_def)
      next
        case one: False
        then show ?thesis
          using False moves mx [of "getValidMoves (st model)" st] mn [of "getValidMoves (st model)" st]
          by (cases maximizingPlayer) (simp_all add: Let_def)
      qed
    qed
  qed
qed


lemma getBestMove_step_st_frame:
  "b < sp \<Longrightarrow>
   snd (snd (snd (snd (getBestMove_step_st env sp model searchDepth beta aiPlayer
                   (bestMove, bestValue, alpha, nodes, st) mv)))) b = st b"
proof -
  assume b: "b < sp"
  then have b': "b \<noteq> sp" "b < sp + 1" by simp_all
  obtain moveValue nodes' st' where
    ab: "alphabeta_st (nat (searchDepth - 1)) env (simulateMove_st env st model mv sp) (sp + 1) sp
           alpha beta False aiPlayer nodes = (moveValue, nodes', st')"
    by (cases "alphabeta_st (nat (searchDepth - 1)) env (simulateMove_st env st model mv sp) (sp + 1) sp
           alpha beta False aiPlayer nodes")
  from alphabeta_st_frame [OF b'(2), of "nat (searchDepth - 1)" env "simulateMove_st env st model mv sp"
      sp alpha beta False aiPlayer nodes] ab
  have "st' b = st b" by (simp add: simulateMove_st_frame [OF b'(1)])
  then show ?thesis using ab by (simp add: getBestMove_step_st_def Let_def)
qed

lemma getBestMove_loop_st_frame:
  "b < sp \<Longrightarrow>
   snd (snd (snd (snd (foldl (getBestMove_step_st env sp model searchDepth beta aiPlayer)
                   (bestMove, bestValue, alpha, nodes, st) moves)))) b = st b"
proof (induction moves arbitrary: bestMove bestValue alpha nodes st)
  case Nil
  then show ?case by simp
next
  case (Cons mv moves)
  obtain bestMove' bestValue' alpha' nodes' st' where
    step: "getBestMove_step_st env sp model searchDepth beta aiPlayer
             (bestMove, bestValue, alpha, nodes, st) mv = (bestMove', bestValue', alpha', nodes', st')"
    by (cases "getBestMove_step_st env sp model searchDepth beta aiPlayer
             (bestMove, bestValue, alpha, nodes, st) mv")
  from getBestMove_step_st_frame [OF Cons.prems, of env model searchDepth beta aiPlayer bestMove
      bestValue alpha nodes st mv] step
  have "st' b = st b" by simp
  with Cons.IH [OF Cons.prems, of bestMove' bestValue' alpha' nodes' st'] step show ?case by simp
qed

lemma getBestMove_st_frame:
  "b < sp \<Longrightarrow> snd (snd (getBestMove_st env st sp model nodesExplored)) b = st b"
proof -
  assume b: "b < sp"
  let ?moves = "getValidMoves (st model)"
  obtain vm s0 where o: "orderMoves_st env st sp model ?moves (currentPlayer (st model)) True = (vm, s0)"
    by (cases "orderMoves_st env st sp model ?moves (currentPlayer (st model)) True")
  with orderMoves_st_frame [OF b, of env st model ?moves "currentPlayer (st model)" True]
  have s0: "s0 b = st b" by simp
  obtain bestMove bestValue alpha nodes st' where
    l: "foldl (getBestMove_step_st env sp model (getSearchDepth (st model)) INT_MAX
                 (currentPlayer (st model)))
          (?moves ! 0, INT_MIN, INT_MIN, 0, s0) vm = (bestMove, bestValue, alpha, nodes, st')"
    by (cases "foldl (getBestMove_step_st env sp model (getSearchDepth (st model)) INT_MAX
                 (currentPlayer (st model)))
          (?moves ! 0, INT_MIN, INT_MIN, 0, s0) vm")
  from getBestMove_loop_st_frame [OF b, of env model "getSearchDepth (st model)" INT_MAX
      "currentPlayer (st model)" "?moves ! 0" INT_MIN INT_MIN 0 s0 vm] l
  have "st' b = s0 b" by simp
  with s0 show ?thesis using o l by (simp add: getBestMove_st_def Let_def)
qed

text \<open>
  Claim C9. Producing a simulated child leaves the model it is produced from
  unchanged, and a whole call of \<open>getBestMove\<close> leaves every field of the caller's
  model unchanged: the writes go to the copies. The child is written to \<open>newModel\<close>,
  an object other than \<open>model\<close>, and the locals of the search lie at \<open>sp\<close> and above,
  the caller's model below.
\<close>

theorem search_frame:
  "(model \<noteq> newModel \<longrightarrow> simulateMove_st env st model mv newModel model = st model) \<and>
   (model < sp \<longrightarrow> snd (snd (getBestMove_st env st sp model nodesExplored)) model = st model)"
  using simulateMove_st_frame [of model newModel env st model mv]
    getBestMove_st_frame [of model sp env st model nodesExplored]
  by blast

lemma initialPosition_child:
  "currentPlayer (simulateMove_st exampleEnv (\<lambda>a. initialPosition) 0 \<lparr>sx = 3, sy = 2\<rparr> 1 1) = PLAYER_WHITE"
  by code_simp

theorem search_frame_witness:
  "(0::nat) \<noteq> 1 \<and> (0::nat) < 1 \<and>
   simulateMove_st exampleEnv (\<lambda>a. initialPosition) 0 \<lparr>sx = 3, sy = 2\<rparr> 1 0 = initialPosition \<and>
   simulateMove_st exampleEnv (\<lambda>a. initialPosition) 0 \<lparr>sx = 3, sy = 2\<rparr> 1 1 \<noteq> initialPosition \<and>
   snd (snd (getBestMove_st exampleEnv (\<lambda>a. initialPosition) 1 0 0)) 0 = initialPosition"
proof -
  have "currentPlayer initialPosition = PLAYER_BLACK"
    by (simp add: initialPosition_def startModel_def)
  with initialPosition_child
  have "simulateMove_st exampleEnv (\<lambda>a. initialPosition) 0 \<lparr>sx = 3, sy = 2\<rparr> 1 1 \<noteq> initialPosition"
    by auto
  then show ?thesis
    using search_frame [of 0 1 exampleEnv "\<lambda>a. initialPosition" "\<lparr>sx = 3, sy = 2\<rparr>" 1 0]
    by simp
qed

end
